theory Spec2Isabelle
  imports Main "HOL-Library.Word" "HOL-Library.Signed_Division"
begin

unbundle bit_operations_syntax

section \<open>The HC32L110 flash driver (src/flash/nor/hc32l110.c)\<close>

text \<open>
  The driver talks to the chip through \<open>target_read_u32\<close> and \<open>target_write_u32\<close>
  and reads the host clock through \<open>timeval_ms\<close>. None of the three is part of the
  driver: they are taken as parameters of the model. A \<open>target\<close> holds
  \<^item> \<open>trace\<close>: every register access the driver has made, oldest first;
  \<^item> \<open>rd\<close>, \<open>nrd\<close>: the value the \<open>k\<close>-th call of \<open>target_read_u32\<close> leaves in
    the variable it is given, and the number of calls made so far;
  \<^item> \<open>clk\<close>, \<open>nclk\<close>: the value the \<open>k\<close>-th call of \<open>timeval_ms\<close> returns, and the
    number of calls made so far;
  \<^item> \<open>slept\<close>: the milliseconds asked of \<open>alive_sleep\<close> so far.
  The driver ignores the status returned by both access functions, so they are modelled
  without one. Addresses are 32-bit (the chip is a Cortex-M0+); times are the \<open>int64_t\<close>
  milliseconds of \<open>timeval_ms\<close>, as unbounded integers.
\<close>

type_synonym u8 = "8 word"
type_synonym u32 = "32 word"

datatype event = Write u32 u32 | Read u32 u32

record target =
  trace :: "event list"
  rd :: "nat \<Rightarrow> u32"
  nrd :: nat
  clk :: "nat \<Rightarrow> int"
  nclk :: nat
  slept :: nat

definition target_write_u32 :: "target \<Rightarrow> u32 \<Rightarrow> u32 \<Rightarrow> target" where
  "target_write_u32 w a v = w\<lparr>trace := trace w @ [Write a v]\<rparr>"

definition target_read_u32 :: "target \<Rightarrow> u32 \<Rightarrow> u32 \<times> target" where
  "target_read_u32 w a =
     (rd w (nrd w), w\<lparr>trace := trace w @ [Read a (rd w (nrd w))], nrd := Suc (nrd w)\<rparr>)"

definition timeval_ms :: "target \<Rightarrow> int \<times> target" where
  "timeval_ms w = (clk w (nclk w), w\<lparr>nclk := Suc (nclk w)\<rparr>)"

definition alive_sleep :: "nat \<Rightarrow> target \<Rightarrow> target" where
  "alive_sleep ms w = w\<lparr>slept := slept w + ms\<rparr>"

subsection \<open>Constants\<close>

definition HC32L110_FLASH_CR :: u32 where "HC32L110_FLASH_CR = 0x40020020"
definition HC32L110_FLASH_CR_BUSY :: u32 where "HC32L110_FLASH_CR_BUSY = push_bit 4 1"
definition HC32L110_FLASH_BYPASS :: u32 where "HC32L110_FLASH_BYPASS = 0x4002002C"
definition HC32L110_FLASH_SLOCK :: u32 where "HC32L110_FLASH_SLOCK = 0x40020030"
definition HC32L110_FLASH_SIZE :: u32 where "HC32L110_FLASH_SIZE = 0x00100C70"

definition FLASH_SECTOR_SIZE :: u32 where "FLASH_SECTOR_SIZE = 512"
definition SPROT_SEC_SIZE :: int where "SPROT_SEC_SIZE = 4096"

definition FLASH_OP_PROGRAM :: u32 where "FLASH_OP_PROGRAM = 1"
definition FLASH_OP_ERASE_SECTOR :: u32 where "FLASH_OP_ERASE_SECTOR = 2"
definition FLASH_OP_ERASE_CHIP :: u32 where "FLASH_OP_ERASE_CHIP = 3"

datatype retval = ERROR_OK | ERROR_FLASH_OPERATION_FAILED | ERROR_FLASH_SECTOR_NOT_ERASED

subsection \<open>The flash bank\<close>

text \<open>
  \<open>struct flash_sector\<close> and the fields of \<open>struct flash_bank\<close> the driver uses. The
  fields \<open>offset\<close> and \<open>size\<close> of a sector and \<open>size\<close> of a bank carry a prefix here.
\<close>

record flash_sector =
  sec_offset :: u32
  sec_size :: u32
  is_erased :: int
  is_protected :: int

record flash_bank =
  base :: u32
  bank_size :: u32
  num_sectors :: u32
  sectors :: "flash_sector list"

definition hc32l110_flash_bank_command :: "flash_bank \<Rightarrow> retval \<times> flash_bank" where
  "hc32l110_flash_bank_command bank = (ERROR_OK, bank\<lparr>base := 0, bank_size := 0x8000\<rparr>)"

subsection \<open>Bypass, unlock, lock\<close>

definition hc32l110_bypass :: "target \<Rightarrow> target" where
  "hc32l110_bypass w =
     target_write_u32 (target_write_u32 w HC32L110_FLASH_BYPASS 0x5a5a)
       HC32L110_FLASH_BYPASS 0xa5a5"

text \<open>
  The loop of \<open>hc32l110_sunlock\<close>: \<open>for (i = start_sec; i < end_sec; i++) b |= (1 << i)\<close>.
  The C \<open>int\<close>s are modelled as unbounded integers, with the division of C
  (\<open>sdiv\<close> rounds towards zero), and the mask \<open>b\<close> as the 32-bit value that is written
  to the register. The shift \<open>1 << i\<close> of a signed \<open>int\<close> is undefined in C for a
  negative \<open>i\<close> and from \<open>i = 31\<close> on; the theorem on the mask bounds the addresses so
  that none occurs.
\<close>

function sunlock_loop :: "int \<Rightarrow> int \<Rightarrow> u32 \<Rightarrow> u32" where
  "sunlock_loop i end_sec b =
     (if i < end_sec then sunlock_loop (i + 1) end_sec (b OR push_bit (nat i) 1) else b)"
  by pat_completeness auto
termination
  by (relation "measure (\<lambda>(i, end_sec, b). nat (end_sec - i))") auto

declare sunlock_loop.simps [simp del]

definition sunlock_mask :: "int \<Rightarrow> int \<Rightarrow> u32" where
  "sunlock_mask start_adr end_adr =
     (let start_sec = start_adr sdiv SPROT_SEC_SIZE;
          end_sec = (end_adr + SPROT_SEC_SIZE - 1) sdiv SPROT_SEC_SIZE
      in sunlock_loop start_sec end_sec 0)"

definition hc32l110_sunlock :: "target \<Rightarrow> int \<Rightarrow> int \<Rightarrow> target" where
  "hc32l110_sunlock w start_adr end_adr =
     target_write_u32 (hc32l110_bypass w) HC32L110_FLASH_SLOCK (sunlock_mask start_adr end_adr)"

definition hc32l110_slock_all :: "target \<Rightarrow> target" where
  "hc32l110_slock_all w = target_write_u32 (hc32l110_bypass w) HC32L110_FLASH_SLOCK 0"

subsection \<open>The completion poller\<close>

text \<open>
  The \<open>while (1)\<close> loop of \<open>hc32l110_check_flash_completion\<close>. It leaves through one of
  two \<open>break\<close>s and need not terminate (a clock that stands still, a flash that stays
  busy): not returning is the value \<open>None\<close>.
\<close>

partial_function (option) completion_loop :: "int \<Rightarrow> target \<Rightarrow> target option" where
  "completion_loop endtime w =
     (case target_read_u32 w HC32L110_FLASH_CR of (v, w1) \<Rightarrow>
        if v AND HC32L110_FLASH_CR_BUSY = 0 then Some w1
        else (case timeval_ms (alive_sleep 1 w1) of (now, w2) \<Rightarrow>
                if now \<ge> endtime then Some w2 else completion_loop endtime w2))"

declare completion_loop.simps [code]

definition hc32l110_check_flash_completion :: "target \<Rightarrow> nat \<Rightarrow> (retval \<times> target) option" where
  "hc32l110_check_flash_completion w timeout_ms =
     (case timeval_ms w of (t0, w0) \<Rightarrow>
        (case completion_loop (t0 + int timeout_ms) w0 of
           None \<Rightarrow> None
         | Some w1 \<Rightarrow> Some (ERROR_OK, w1)))"

subsection \<open>Erase\<close>

text \<open>
  The loop \<open>for (x = first; x < last; x++)\<close> of the per-sector path, with the early
  \<open>return ERROR_FLASH_SECTOR_NOT_ERASED\<close> as a result of the loop. \<open>x\<close> is an
  \<open>unsigned int\<close>, so \<open>x * FLASH_SECTOR_SIZE\<close> wraps at 32 bits; the address is
  converted to \<open>int\<close> for \<open>hc32l110_sunlock\<close> (\<open>sint\<close>). The shift \<open>1 << (x / 4)\<close> is
  undefined in C from \<open>x = 124\<close> on, far beyond the 64 sectors of the largest chip.
\<close>

function erase_loop :: "flash_bank \<Rightarrow> u32 \<Rightarrow> u32 \<Rightarrow> target \<Rightarrow> (retval \<times> target) option" where
  "erase_loop bank x lst w =
     (if x < lst then
        (let adr = base bank + x * FLASH_SECTOR_SIZE;
             w1 = target_write_u32 (hc32l110_bypass w) HC32L110_FLASH_CR FLASH_OP_ERASE_SECTOR;
             w2 = hc32l110_sunlock (hc32l110_bypass w1) (sint adr) (sint (adr + FLASH_SECTOR_SIZE));
             w3 = target_write_u32 w2 HC32L110_FLASH_SLOCK (push_bit (unat (x div 4)) 1);
             w4 = target_write_u32 w3 adr 0
         in case hc32l110_check_flash_completion w4 50 of
              None \<Rightarrow> None
            | Some (r, w5) \<Rightarrow>
                if r \<noteq> ERROR_OK then Some (ERROR_FLASH_SECTOR_NOT_ERASED, w5)
                else erase_loop bank (x + 1) lst w5)
      else Some (ERROR_OK, w))"
  by pat_completeness auto
termination
  apply (relation "measure (\<lambda>(bank, x, lst, w). unat lst - unat x)")
   apply simp
  subgoal for bank x lst
    using unsigned_less [of lst, where 'a = nat]
    by (simp add: word_less_nat_alt unat_word_ariths)
  done

declare erase_loop.simps [simp del]

definition hc32l110_erase :: "flash_bank \<Rightarrow> u32 \<Rightarrow> u32 \<Rightarrow> target \<Rightarrow> (retval \<times> target) option" where
  "hc32l110_erase bank first lst w =
     (if (first OR lst) = 0 \<or> (first = 0 \<and> lst \<ge> num_sectors bank) then
        (let w1 = target_write_u32 (hc32l110_bypass w) HC32L110_FLASH_CR FLASH_OP_ERASE_CHIP;
             w2 = hc32l110_sunlock w1 0 (32 * 1024);
             w3 = target_write_u32 w2 0 0
         in case hc32l110_check_flash_completion w3 3500 of
              None \<Rightarrow> None
            | Some (r, w4) \<Rightarrow>
                if r \<noteq> ERROR_OK then Some (ERROR_FLASH_OPERATION_FAILED, w4)
                else Some (ERROR_OK, hc32l110_slock_all w4))
      else
        (case erase_loop bank first lst w of
           None \<Rightarrow> None
         | Some (r, w1) \<Rightarrow>
             if r \<noteq> ERROR_OK then Some (r, w1)
             else Some (ERROR_OK, hc32l110_slock_all w1)))"

subsection \<open>Program\<close>

text \<open>
  The inner loop of \<open>hc32l110_write_single\<close> gathers one word: four times, shift \<open>v\<close>
  right by a byte and put the next byte on top, a buffer byte when its index \<open>x + b\<close> is
  in \<open>[0, count)\<close> and \<open>0xFF\<close> otherwise. The buffer is read only at those indices; a
  caller passes at least \<open>count\<close> bytes.
\<close>

function gather_loop :: "u8 list \<Rightarrow> u32 \<Rightarrow> int \<Rightarrow> int \<Rightarrow> u32 \<Rightarrow> u32" where
  "gather_loop buffer count x b v =
     (if b < 4 then
        (let v1 = drop_bit 8 v;
             v2 = (if x + b < sint count \<and> x + b \<ge> 0
                   then v1 OR push_bit 24 (ucast (buffer ! nat (x + b)))
                   else v1 OR 0xFF000000)
         in gather_loop buffer count x (b + 1) v2)
      else v)"
  by pat_completeness auto
termination
  by (relation "measure (\<lambda>(buffer, count, x, b, v). nat (4 - b))") auto

declare gather_loop.simps [simp del]

text \<open>
  The outer loop \<open>for (int x = -neg_start; x < (int32_t)count; x += 4)\<close>, with the early
  \<open>return ERROR_FLASH_OPERATION_FAILED\<close> as a result of the loop. The \<open>int\<close> \<open>x\<close> is an
  unbounded integer here; \<open>offset + x\<close> is computed in \<open>uint32_t\<close>.
\<close>

function write_loop :: "u8 list \<Rightarrow> u32 \<Rightarrow> u32 \<Rightarrow> int \<Rightarrow> target \<Rightarrow> (retval \<times> target) option" where
  "write_loop buffer offset count x w =
     (if x < sint count then
        (let v = gather_loop buffer count x 0 0;
             w1 = target_write_u32 w (offset + word_of_int x) v
         in case hc32l110_check_flash_completion w1 1 of
              None \<Rightarrow> None
            | Some (r, w2) \<Rightarrow>
                if r \<noteq> ERROR_OK then Some (ERROR_FLASH_OPERATION_FAILED, w2)
                else write_loop buffer offset count (x + 4) w2)
      else Some (ERROR_OK, w))"
  by pat_completeness auto
termination
  by (relation "measure (\<lambda>(buffer, offset, count, x, w). nat (sint count - x))") auto

declare write_loop.simps [simp del]

definition hc32l110_write_single ::
  "flash_bank \<Rightarrow> u8 list \<Rightarrow> u32 \<Rightarrow> u32 \<Rightarrow> target \<Rightarrow> (retval \<times> target) option" where
  "hc32l110_write_single bank buffer offset count w =
     (let w1 = target_write_u32 (hc32l110_bypass w) HC32L110_FLASH_CR FLASH_OP_PROGRAM;
          w2 = hc32l110_sunlock w1 (sint (offset AND NOT 3)) (sint ((offset + count + 3) AND NOT 3));
          neg_start = offset mod 4
      in case write_loop buffer offset count (sint (- neg_start)) w2 of
           None \<Rightarrow> None
         | Some (r, w3) \<Rightarrow>
             if r \<noteq> ERROR_OK then Some (r, w3)
             else Some (ERROR_OK, hc32l110_slock_all w3))"

definition hc32l110_write ::
  "flash_bank \<Rightarrow> u8 list \<Rightarrow> u32 \<Rightarrow> u32 \<Rightarrow> target \<Rightarrow> (retval \<times> target) option" where
  "hc32l110_write bank buffer offset count w =
     (case hc32l110_write_single bank buffer offset count w of
        None \<Rightarrow> None
      | Some (retval, w1) \<Rightarrow>
          if retval \<noteq> ERROR_OK then Some (ERROR_FLASH_OPERATION_FAILED, w1)
          else Some (retval, w1))"

subsection \<open>Probe\<close>

text \<open>
  The loop of \<open>hc32l110_probe\<close> fills the sector array by index. The array comes from
  \<open>malloc\<close>, so its first content is unspecified: the argument \<open>uninit\<close> stands for it.
\<close>

function probe_loop :: "u32 \<Rightarrow> u32 \<Rightarrow> u32 \<Rightarrow> flash_sector list \<Rightarrow> flash_sector list" where
  "probe_loop i n off secs =
     (if i < n then
        (let secs1 = secs[unat i := \<lparr>sec_offset = off, sec_size = FLASH_SECTOR_SIZE,
                                     is_erased = - 1, is_protected = 0\<rparr>]
         in probe_loop (i + 1) n (off + sec_size (secs1 ! unat i)) secs1)
      else secs)"
  by pat_completeness auto
termination
  apply (relation "measure (\<lambda>(i, n, off, secs). unat n - unat i)")
   apply simp
  subgoal for i n
    using unsigned_less [of n, where 'a = nat]
    by (simp add: word_less_nat_alt unat_word_ariths)
  done

declare probe_loop.simps [simp del]

definition hc32l110_probe :: "flash_sector \<Rightarrow> flash_bank \<Rightarrow> target \<Rightarrow> retval \<times> flash_bank \<times> target" where
  "hc32l110_probe uninit bank w =
     (case target_read_u32 w HC32L110_FLASH_SIZE of (flash_size, w1) \<Rightarrow>
        if flash_size > 32768 \<or> flash_size < 4096 then (ERROR_FLASH_OPERATION_FAILED, bank, w1)
        else
          (let bank1 = bank\<lparr>bank_size := flash_size\<rparr>;
               bank2 = bank1\<lparr>num_sectors := bank_size bank1 div FLASH_SECTOR_SIZE\<rparr>;
               bank3 = bank2\<lparr>sectors := replicate (unat (num_sectors bank2)) uninit\<rparr>
           in (ERROR_OK,
               bank3\<lparr>sectors := probe_loop 0 (num_sectors bank3) 0 (sectors bank3)\<rparr>, w1)))"

subsection \<open>Notions used to state the properties\<close>

text \<open>
  The clock is unbounded when, from every call on, some later call of \<open>timeval_ms\<close>
  returns at least any given time. The poller sleeps between two readings of the clock,
  so a running wall clock is unbounded in this sense.
\<close>

definition clock_unbounded :: "(nat \<Rightarrow> int) \<Rightarrow> bool" where
  "clock_unbounded c \<longleftrightarrow> (\<forall>n t. \<exists>k\<ge>n. t \<le> c k)"

definition is_read :: "event \<Rightarrow> bool" where
  "is_read e = (case e of Read a v \<Rightarrow> True | Write a v \<Rightarrow> False)"

text \<open>What a caller and the chip see of a run: the status returned and the accesses made.\<close>

definition outcome :: "(retval \<times> target) option \<Rightarrow> (retval \<times> event list) option" where
  "outcome res = map_option (\<lambda>(r, w). (r, trace w)) res"

text \<open>
  Two targets to run the driver on: the clock advances by one millisecond from one call
  of \<open>timeval_ms\<close> to the next; every read returns 0 on the first (the flash is never
  busy) and \<open>0x10\<close> on the second (the busy bit never clears).
\<close>

definition idle_target :: target where
  "idle_target = \<lparr>trace = [], rd = (\<lambda>k. 0), nrd = 0, clk = (\<lambda>k. int k), nclk = 0, slept = 0\<rparr>"

definition busy_target :: target where
  "busy_target = \<lparr>trace = [], rd = (\<lambda>k. 0x10), nrd = 0, clk = (\<lambda>k. int k), nclk = 0, slept = 0\<rparr>"

definition bank64 :: flash_bank where
  "bank64 = \<lparr>base = 0, bank_size = 0x8000, num_sectors = 64, sectors = []\<rparr>"

text \<open>
  A trace keeps the lock register guarded when every write to the sector-lock register
  comes right after the two writes of the bypass handshake. \<open>guarded_from seen es\<close>
  scans \<open>es\<close> with the accesses already made in \<open>seen\<close>, newest first.
\<close>

fun guarded_from :: "event list \<Rightarrow> event list \<Rightarrow> bool" where
  "guarded_from seen [] = True"
| "guarded_from seen (e # es) =
     ((case e of
         Write a v \<Rightarrow>
           (if a = HC32L110_FLASH_SLOCK
            then take 2 seen =
                   [Write HC32L110_FLASH_BYPASS 0xa5a5, Write HC32L110_FLASH_BYPASS 0x5a5a]
            else True)
       | Read a v \<Rightarrow> True) \<and>
      guarded_from (e # seen) es)"

definition slock_guarded :: "event list \<Rightarrow> bool" where
  "slock_guarded tr = guarded_from [] tr"

text \<open>
  Modelled from the spec: the sector-lock register of the chip, which is no part of the
  driver. The register takes a write only when the two magic words have just been
  written to the bypass register (the comment on \<open>hc32l110_bypass\<close>; the register table
  of the specification); the window is the one access that follows them.
  \<open>slock_held_from seen held es\<close> is the value the register holds after the accesses
  \<open>es\<close> when it held \<open>held\<close> before them, \<open>seen\<close> being the accesses made earlier, newest
  first; \<open>None\<close> stands for a value no write of the trace has set.
\<close>

fun slock_held_from :: "event list \<Rightarrow> u32 option \<Rightarrow> event list \<Rightarrow> u32 option" where
  "slock_held_from seen held [] = held"
| "slock_held_from seen held (e # es) =
     slock_held_from (e # seen)
       (case e of
          Write a v \<Rightarrow>
            (if a = HC32L110_FLASH_SLOCK \<and>
                take 2 seen =
                  [Write HC32L110_FLASH_BYPASS 0xa5a5, Write HC32L110_FLASH_BYPASS 0x5a5a]
             then Some v else held)
        | Read a v \<Rightarrow> held)
       es"

definition slock_held :: "event list \<Rightarrow> u32 option" where
  "slock_held tr = slock_held_from [] None tr"

text \<open>
  A write to an address that is none of the three registers of the flash controller goes
  to the flash: with the erase-sector operation selected it is the trigger of a sector
  erase. \<open>trigger_locks past es\<close> lists, for each such write in \<open>es\<close>, its address and
  the value the lock register holds when it is issued, \<open>past\<close> being the accesses made
  before \<open>es\<close>, oldest first.
\<close>

definition is_register :: "u32 \<Rightarrow> bool" where
  "is_register a \<longleftrightarrow>
     a = HC32L110_FLASH_CR \<or> a = HC32L110_FLASH_BYPASS \<or> a = HC32L110_FLASH_SLOCK"

fun trigger_locks :: "event list \<Rightarrow> event list \<Rightarrow> (u32 \<times> u32 option) list" where
  "trigger_locks past [] = []"
| "trigger_locks past (e # es) =
     (case e of
        Write a v \<Rightarrow> if is_register a then [] else [(a, slock_held past)]
      | Read a v \<Rightarrow> []) @
     trigger_locks (past @ [e]) es"

text \<open>The accesses of one round of the per-sector loop, up to the trigger.\<close>

definition sector_round :: "u32 \<Rightarrow> u32 \<Rightarrow> event list" where
  "sector_round x adr =
     [Write HC32L110_FLASH_BYPASS 0x5a5a, Write HC32L110_FLASH_BYPASS 0xa5a5,
      Write HC32L110_FLASH_CR FLASH_OP_ERASE_SECTOR,
      Write HC32L110_FLASH_BYPASS 0x5a5a, Write HC32L110_FLASH_BYPASS 0xa5a5,
      Write HC32L110_FLASH_BYPASS 0x5a5a, Write HC32L110_FLASH_BYPASS 0xa5a5,
      Write HC32L110_FLASH_SLOCK (sunlock_mask (sint adr) (sint (adr + 512))),
      Write HC32L110_FLASH_SLOCK (push_bit (unat (x div 4)) 1)]"

text \<open>
  The span \<open>[start_adr, end_adr)\<close> intersects the 4 KiB region \<open>i\<close>, that is
  \<open>[i * 4096, (i + 1) * 4096)\<close>, when the larger of the two lower ends lies below the
  smaller of the two upper ends.
\<close>

definition span_intersects_region :: "int \<Rightarrow> int \<Rightarrow> nat \<Rightarrow> bool" where
  "span_intersects_region start_adr end_adr i \<longleftrightarrow>
     max start_adr (int i * 4096) < min end_adr ((int i + 1) * 4096)"

text \<open>
  The sector entry the probe loop writes for the offset \<open>off\<close>, and some content of
  uninitialised memory to run the probe on.
\<close>

definition fresh_sector :: "u32 \<Rightarrow> flash_sector" where
  "fresh_sector off = \<lparr>sec_offset = off, sec_size = 512, is_erased = - 1, is_protected = 0\<rparr>"

definition junk_sector :: flash_sector where
  "junk_sector = \<lparr>sec_offset = 7, sec_size = 7, is_erased = 7, is_protected = 7\<rparr>"

text \<open>
  For the program engine: the words written in a stretch of the trace, with their
  addresses; byte \<open>j\<close> of a word, counted from the least significant one, which is the
  byte at address \<open>a + j\<close> of a little-endian word written at \<open>a\<close>; the byte the gather
  loop takes for the buffer index \<open>i\<close>; the address and the word of the \<open>k\<close>-th round of
  the loop started at \<open>x\<close>; and the accesses \<open>hc32l110_write_single\<close> makes before and
  after its loop.
\<close>

definition writes_of :: "event list \<Rightarrow> (u32 \<times> u32) list" where
  "writes_of es = concat (map (\<lambda>e. case e of Write a v \<Rightarrow> [(a, v)] | Read a v \<Rightarrow> []) es)"

definition word_byte :: "u32 \<Rightarrow> nat \<Rightarrow> u8" where
  "word_byte v j = ucast (drop_bit (8 * j) v)"

definition pad_byte :: "u8 list \<Rightarrow> u32 \<Rightarrow> int \<Rightarrow> u8" where
  "pad_byte buffer count i = (if i < sint count \<and> i \<ge> 0 then buffer ! nat i else 0xFF)"

definition word_at :: "u8 list \<Rightarrow> u32 \<Rightarrow> u32 \<Rightarrow> int \<Rightarrow> nat \<Rightarrow> u32 \<times> u32" where
  "word_at buffer offset count x k =
     (offset + word_of_int (x + 4 * int k), gather_loop buffer count (x + 4 * int k) 0 0)"

definition prologue :: "u32 \<Rightarrow> u32 \<Rightarrow> event list" where
  "prologue offset count =
     [Write HC32L110_FLASH_BYPASS 0x5a5a, Write HC32L110_FLASH_BYPASS 0xa5a5,
      Write HC32L110_FLASH_CR FLASH_OP_PROGRAM,
      Write HC32L110_FLASH_BYPASS 0x5a5a, Write HC32L110_FLASH_BYPASS 0xa5a5,
      Write HC32L110_FLASH_SLOCK
        (sunlock_mask (sint (offset AND NOT 3)) (sint ((offset + count + 3) AND NOT 3)))]"

definition epilogue :: "event list" where
  "epilogue =
     [Write HC32L110_FLASH_BYPASS 0x5a5a, Write HC32L110_FLASH_BYPASS 0xa5a5,
      Write HC32L110_FLASH_SLOCK 0]"

section \<open>Properties\<close>

subsection \<open>The completion poller\<close>

lemma clock_unbounded_int: "clock_unbounded (\<lambda>k. int k)"
  unfolding clock_unbounded_def
proof (intro allI)
  fix n :: nat and t :: int
  have "n \<le> max n (nat t) \<and> t \<le> int (max n (nat t))" by simp
  then show "\<exists>k\<ge>n. t \<le> int k" by blast
qed

lemma completion_loop_frame:
  "completion_loop t w = Some w' \<Longrightarrow>
   \<exists>rs. trace w' = trace w @ rs \<and> list_all is_read rs \<and> clk w' = clk w \<and> rd w' = rd w"
proof (induction t w w' rule: completion_loop.raw_induct [rotated 1, consumes 1, case_names step])
  case (step loop t w w')
  let ?r = "Read HC32L110_FLASH_CR (rd w (nrd w))"
  let ?w1 = "w\<lparr>trace := trace w @ [?r], nrd := Suc (nrd w)\<rparr>"
  let ?w2 = "?w1\<lparr>slept := slept w + 1, nclk := Suc (nclk w)\<rparr>"
  have r: "is_read ?r" by (simp add: is_read_def)
  show ?case
  proof (cases "rd w (nrd w) AND HC32L110_FLASH_CR_BUSY = 0")
    case True
    with step.hyps have "?w1 = w'"
      by (simp add: target_read_u32_def)
    then have "trace w' = trace w @ [?r]" "clk w' = clk w" "rd w' = rd w"
      by auto
    with r show ?thesis by simp
  next
    case busy: False
    show ?thesis
    proof (cases "t \<le> clk w (nclk w)")
      case True
      with busy step.hyps have "?w2 = w'"
        by (simp add: target_read_u32_def timeval_ms_def alive_sleep_def)
      then have "trace w' = trace w @ [?r]" "clk w' = clk w" "rd w' = rd w"
        by auto
      with r show ?thesis by simp
    next
      case False
      with busy step.hyps have "loop t ?w2 = Some w'"
        by (simp add: target_read_u32_def timeval_ms_def alive_sleep_def)
      from step.IH [OF this] obtain rs where
        "trace w' = trace ?w2 @ rs" "list_all is_read rs" "clk w' = clk ?w2" "rd w' = rd ?w2"
        by blast
      with r have "trace w' = trace w @ (?r # rs) \<and> list_all is_read (?r # rs)
          \<and> clk w' = clk w \<and> rd w' = rd w"
        by simp
      then show ?thesis by blast
    qed
  qed
qed

lemma completion_loop_terminates:
  "t \<le> clk w k \<Longrightarrow> nclk w \<le> k \<Longrightarrow> \<exists>w'. completion_loop t w = Some w'"
proof (induction "k - nclk w" arbitrary: w rule: less_induct)
  case less
  show ?case
  proof (cases "rd w (nrd w) AND HC32L110_FLASH_CR_BUSY = 0 \<or> t \<le> clk w (nclk w)")
    case True
    then show ?thesis
      by (subst completion_loop.simps)
         (auto simp: target_read_u32_def timeval_ms_def alive_sleep_def)
  next
    case False
    let ?w2 = "w\<lparr>trace := trace w @ [Read HC32L110_FLASH_CR (rd w (nrd w))],
      nrd := Suc (nrd w), slept := Suc (slept w), nclk := Suc (nclk w)\<rparr>"
    from False less.prems have "nclk w \<noteq> k" by auto
    with less.prems have lt: "nclk w < k" by simp
    have "\<exists>w'. completion_loop t ?w2 = Some w'"
      by (rule less.hyps) (use lt less.prems in auto)
    with False show ?thesis
      by (subst completion_loop.simps)
         (auto simp: target_read_u32_def timeval_ms_def alive_sleep_def)
  qed
qed

lemma check_completion_ok:
  "hc32l110_check_flash_completion w timeout_ms = Some (r, w') \<Longrightarrow> r = ERROR_OK"
  by (auto simp: hc32l110_check_flash_completion_def split: prod.splits option.splits)

lemma check_completion_frame:
  assumes "hc32l110_check_flash_completion w timeout_ms = Some (r, w')"
  shows "\<exists>rs. trace w' = trace w @ rs \<and> list_all is_read rs \<and> clk w' = clk w \<and> rd w' = rd w"
proof -
  let ?w0 = "w\<lparr>nclk := Suc (nclk w)\<rparr>"
  from assms have "completion_loop (clk w (nclk w) + int timeout_ms) ?w0 = Some w'"
    by (auto simp: hc32l110_check_flash_completion_def timeval_ms_def split: option.splits)
  from completion_loop_frame [OF this] show ?thesis by simp
qed

lemma check_completion_returns:
  assumes "clock_unbounded (clk w)"
  shows "\<exists>w'. hc32l110_check_flash_completion w timeout_ms = Some (ERROR_OK, w')"
proof -
  let ?w0 = "w\<lparr>nclk := Suc (nclk w)\<rparr>"
  let ?t = "clk w (nclk w) + int timeout_ms"
  from assms obtain k where "Suc (nclk w) \<le> k" "?t \<le> clk w k"
    unfolding clock_unbounded_def by blast
  then have "\<exists>w'. completion_loop ?t ?w0 = Some w'"
    by (intro completion_loop_terminates [where k = k]) simp_all
  then show ?thesis
    by (auto simp: hc32l110_check_flash_completion_def timeval_ms_def)
qed

text \<open>
  Claim C1 says that the poller returns a timeout when the busy bit never reads clear
  before the deadline. The code does not: on \<open>busy_target\<close>, with a timeout of 2 ms,
  the poller reads the control register twice, sees the busy bit set both times, leaves
  the loop at the deadline and returns \<open>ERROR_OK\<close>.
\<close>

theorem poller_ok_at_deadline:
  "outcome (hc32l110_check_flash_completion busy_target 2) =
     Some (ERROR_OK, [Read HC32L110_FLASH_CR 0x10, Read HC32L110_FLASH_CR 0x10])"
  by code_simp

subsection \<open>Erase and write never fail\<close>

lemma clk_write [simp]: "clk (target_write_u32 w a v) = clk w"
  by (simp add: target_write_u32_def)
lemma clk_bypass [simp]: "clk (hc32l110_bypass w) = clk w"
  by (simp add: hc32l110_bypass_def)
lemma clk_sunlock [simp]: "clk (hc32l110_sunlock w s e) = clk w"
  by (simp add: hc32l110_sunlock_def)
lemma clk_slock_all [simp]: "clk (hc32l110_slock_all w) = clk w"
  by (simp add: hc32l110_slock_all_def)

lemma erase_loop_ok: "erase_loop bank x lst w = Some (r, w') \<Longrightarrow> r = ERROR_OK"
proof (induction bank x lst w rule: erase_loop.induct)
  case (1 bank x lst w)
  show ?case
  proof (cases "x < lst")
    case False
    with "1.prems" show ?thesis by (simp add: erase_loop.simps)
  next
    case True
    define adr where "adr = base bank + x * FLASH_SECTOR_SIZE"
    define w1 where "w1 = target_write_u32 (hc32l110_bypass w) HC32L110_FLASH_CR FLASH_OP_ERASE_SECTOR"
    define w2 where "w2 = hc32l110_sunlock (hc32l110_bypass w1) (sint adr) (sint (adr + FLASH_SECTOR_SIZE))"
    define w3 where "w3 = target_write_u32 w2 HC32L110_FLASH_SLOCK (push_bit (unat (x div 4)) 1)"
    define w4 where "w4 = target_write_u32 w3 adr 0"
    from True "1.prems" obtain w5 where
      p: "hc32l110_check_flash_completion w4 50 = Some (ERROR_OK, w5)"
      and l: "erase_loop bank (x + 1) lst w5 = Some (r, w')"
      by (subst (asm) erase_loop.simps)
         (auto simp: Let_def adr_def w1_def w2_def w3_def w4_def
               split: option.splits if_splits dest: check_completion_ok)
    from "1.IH" [OF True adr_def w1_def w2_def w3_def w4_def p refl _ l]
    show ?thesis by simp
  qed
qed

lemma erase_loop_returns:
  "clock_unbounded (clk w) \<Longrightarrow> \<exists>w'. erase_loop bank x lst w = Some (ERROR_OK, w') \<and> clk w' = clk w"
proof (induction bank x lst w rule: erase_loop.induct)
  case (1 bank x lst w)
  show ?case
  proof (cases "x < lst")
    case False
    then show ?thesis by (simp add: erase_loop.simps)
  next
    case True
    define adr where "adr = base bank + x * FLASH_SECTOR_SIZE"
    define w1 where "w1 = target_write_u32 (hc32l110_bypass w) HC32L110_FLASH_CR FLASH_OP_ERASE_SECTOR"
    define w2 where "w2 = hc32l110_sunlock (hc32l110_bypass w1) (sint adr) (sint (adr + FLASH_SECTOR_SIZE))"
    define w3 where "w3 = target_write_u32 w2 HC32L110_FLASH_SLOCK (push_bit (unat (x div 4)) 1)"
    define w4 where "w4 = target_write_u32 w3 adr 0"
    have c4: "clk w4 = clk w" by (simp add: w4_def w3_def w2_def w1_def)
    with "1.prems" obtain w5 where p: "hc32l110_check_flash_completion w4 50 = Some (ERROR_OK, w5)"
      using check_completion_returns [of w4 50] by auto
    from check_completion_frame [OF p] c4 have c5: "clk w5 = clk w" by auto
    with "1.prems" have "clock_unbounded (clk w5)" by simp
    from "1.IH" [OF True adr_def w1_def w2_def w3_def w4_def p refl _ this]
    obtain w' where "erase_loop bank (x + 1) lst w5 = Some (ERROR_OK, w')" "clk w' = clk w5"
      by auto
    with True p c5 show ?thesis
      by (subst erase_loop.simps) (simp add: Let_def adr_def w1_def w2_def w3_def w4_def)
  qed
qed

lemma trace_bypass: "trace (hc32l110_bypass w) =
    trace w @ [Write HC32L110_FLASH_BYPASS 0x5a5a, Write HC32L110_FLASH_BYPASS 0xa5a5]"
  by (simp add: hc32l110_bypass_def target_write_u32_def)

lemma trace_slock_all: "trace (hc32l110_slock_all w) =
    trace w @ [Write HC32L110_FLASH_BYPASS 0x5a5a, Write HC32L110_FLASH_BYPASS 0xa5a5,
               Write HC32L110_FLASH_SLOCK 0]"
  by (simp add: hc32l110_slock_all_def trace_bypass target_write_u32_def)

lemma trace_sunlock: "trace (hc32l110_sunlock w s e) =
    trace w @ [Write HC32L110_FLASH_BYPASS 0x5a5a, Write HC32L110_FLASH_BYPASS 0xa5a5,
               Write HC32L110_FLASH_SLOCK (sunlock_mask s e)]"
  by (simp add: hc32l110_sunlock_def trace_bypass target_write_u32_def)

lemma write_loop_ok: "write_loop buffer offset count x w = Some (r, w') \<Longrightarrow> r = ERROR_OK"
proof (induction buffer offset count x w rule: write_loop.induct)
  case (1 buffer offset count x w)
  show ?case
  proof (cases "x < sint count")
    case False
    with "1.prems" show ?thesis by (simp add: write_loop.simps)
  next
    case True
    define v where "v = gather_loop buffer count x 0 0"
    define w1 where "w1 = target_write_u32 w (offset + word_of_int x) v"
    from True "1.prems" obtain w2 where
      p: "hc32l110_check_flash_completion w1 1 = Some (ERROR_OK, w2)"
      and l: "write_loop buffer offset count (x + 4) w2 = Some (r, w')"
      by (subst (asm) write_loop.simps)
         (auto simp: Let_def v_def w1_def
               split: option.splits if_splits dest: check_completion_ok)
    from "1.IH" [OF True v_def w1_def p refl _ l]
    show ?thesis by simp
  qed
qed

lemma write_loop_returns:
  "clock_unbounded (clk w) \<Longrightarrow>
   \<exists>w'. write_loop buffer offset count x w = Some (ERROR_OK, w') \<and> clk w' = clk w"
proof (induction buffer offset count x w rule: write_loop.induct)
  case (1 buffer offset count x w)
  show ?case
  proof (cases "x < sint count")
    case False
    then show ?thesis by (simp add: write_loop.simps)
  next
    case True
    define v where "v = gather_loop buffer count x 0 0"
    define w1 where "w1 = target_write_u32 w (offset + word_of_int x) v"
    have c1: "clk w1 = clk w" by (simp add: w1_def)
    with "1.prems" obtain w2 where p: "hc32l110_check_flash_completion w1 1 = Some (ERROR_OK, w2)"
      using check_completion_returns [of w1 1] by auto
    from check_completion_frame [OF p] c1 have c2: "clk w2 = clk w" by auto
    with "1.prems" have "clock_unbounded (clk w2)" by simp
    from "1.IH" [OF True v_def w1_def p refl _ this]
    obtain w' where "write_loop buffer offset count (x + 4) w2 = Some (ERROR_OK, w')" "clk w' = clk w2"
      by auto
    with True p c2 show ?thesis
      by (subst write_loop.simps) (simp add: Let_def v_def w1_def)
  qed
qed

lemma erase_ok: "hc32l110_erase bank first lst w = Some (r, w') \<Longrightarrow> r = ERROR_OK"
  by (auto simp: hc32l110_erase_def Let_def
           split: if_splits option.splits dest: check_completion_ok erase_loop_ok)

lemma erase_returns:
  assumes "clock_unbounded (clk w)"
  shows "\<exists>w'. hc32l110_erase bank first lst w = Some (ERROR_OK, w')"
proof (cases "(first OR lst) = 0 \<or> (first = 0 \<and> lst \<ge> num_sectors bank)")
  case True
  define w3 where "w3 = target_write_u32 (hc32l110_sunlock (target_write_u32 (hc32l110_bypass w)
      HC32L110_FLASH_CR FLASH_OP_ERASE_CHIP) 0 (32 * 1024)) 0 0"
  have "clk w3 = clk w" by (simp add: w3_def)
  with assms obtain w4 where "hc32l110_check_flash_completion w3 3500 = Some (ERROR_OK, w4)"
    using check_completion_returns [of w3 3500] by auto
  with True show ?thesis
    by (simp add: hc32l110_erase_def Let_def w3_def)
next
  case False
  from erase_loop_returns [OF assms, of bank first lst]
  obtain w1 where "erase_loop bank first lst w = Some (ERROR_OK, w1)" by blast
  with False show ?thesis
    by (auto simp: hc32l110_erase_def)
qed

lemma write_single_ok:
  "hc32l110_write_single bank buffer offset count w = Some (r, w') \<Longrightarrow> r = ERROR_OK"
  by (auto simp: hc32l110_write_single_def Let_def
           split: if_splits option.splits dest: write_loop_ok)

lemma write_single_returns:
  assumes "clock_unbounded (clk w)"
  shows "\<exists>w'. hc32l110_write_single bank buffer offset count w = Some (ERROR_OK, w')"
proof -
  define w2 where "w2 = hc32l110_sunlock (target_write_u32 (hc32l110_bypass w)
      HC32L110_FLASH_CR FLASH_OP_PROGRAM)
      (sint (offset AND NOT 3)) (sint ((offset + count + 3) AND NOT 3))"
  have "clk w2 = clk w" by (simp add: w2_def)
  with assms have "clock_unbounded (clk w2)" by simp
  from write_loop_returns [OF this, of buffer offset count "sint (- (offset mod 4))"]
  obtain w3 where "write_loop buffer offset count (sint (- (offset mod 4))) w2 = Some (ERROR_OK, w3)"
    by blast
  then show ?thesis
    by (simp add: hc32l110_write_single_def Let_def w2_def)
qed


text \<open>
  Claim C10: the poller returns \<open>ERROR_OK\<close> whenever it returns, whatever the timeout
  and the values read from the control register; so do erase and write, whose failure
  branches are therefore never taken. When the clock is unbounded all three return.
\<close>

theorem completion_always_ok:
  "(\<forall>r w'. hc32l110_check_flash_completion w timeout_ms = Some (r, w') \<longrightarrow> r = ERROR_OK) \<and>
   (\<forall>r w'. hc32l110_erase bank first lst w = Some (r, w') \<longrightarrow> r = ERROR_OK) \<and>
   (\<forall>r w'. hc32l110_write bank buffer offset count w = Some (r, w') \<longrightarrow> r = ERROR_OK) \<and>
   (clock_unbounded (clk w) \<longrightarrow>
      (\<exists>w'. hc32l110_check_flash_completion w timeout_ms = Some (ERROR_OK, w')) \<and>
      (\<exists>w'. hc32l110_erase bank first lst w = Some (ERROR_OK, w')) \<and>
      (\<exists>w'. hc32l110_write bank buffer offset count w = Some (ERROR_OK, w')))"
proof (intro conjI allI impI)
  fix r w'
  assume "hc32l110_check_flash_completion w timeout_ms = Some (r, w')"
  then show "r = ERROR_OK" by (rule check_completion_ok)
next
  fix r w'
  assume "hc32l110_erase bank first lst w = Some (r, w')"
  then show "r = ERROR_OK" by (rule erase_ok)
next
  fix r w'
  assume "hc32l110_write bank buffer offset count w = Some (r, w')"
  then show "r = ERROR_OK"
    by (auto simp: hc32l110_write_def split: option.splits if_splits dest: write_single_ok)
next
  assume "clock_unbounded (clk w)"
  then show "\<exists>w'. hc32l110_check_flash_completion w timeout_ms = Some (ERROR_OK, w')"
    by (rule check_completion_returns)
next
  assume "clock_unbounded (clk w)"
  then show "\<exists>w'. hc32l110_erase bank first lst w = Some (ERROR_OK, w')"
    by (rule erase_returns)
next
  assume "clock_unbounded (clk w)"
  from write_single_returns [OF this, of bank buffer offset count]
  show "\<exists>w'. hc32l110_write bank buffer offset count w = Some (ERROR_OK, w')"
    by (auto simp: hc32l110_write_def)
qed

theorem completion_always_ok_witness:
  "clock_unbounded (clk busy_target) \<and>
   (\<exists>w'. hc32l110_check_flash_completion busy_target 50 = Some (ERROR_OK, w')) \<and>
   (\<exists>w'. hc32l110_erase bank64 2 3 busy_target = Some (ERROR_OK, w')) \<and>
   (\<exists>w'. hc32l110_write bank64 [0xAA, 0xBB, 0xCC] 2 3 busy_target = Some (ERROR_OK, w'))"
proof -
  have h: "clock_unbounded (clk busy_target)"
    by (simp add: busy_target_def clock_unbounded_int)
  with completion_always_ok [of busy_target 50 bank64 2 3 "[0xAA, 0xBB, 0xCC]" 2 3]
  show ?thesis by blast
qed


subsection \<open>Re-locking after a per-sector erase\<close>

text \<open>
  Claim C9: every terminating run of the per-sector erase path ends with the bypass
  handshake followed by the write of 0 to the sector-lock register. The \<open>return\<close> inside
  the loop, which skips the re-lock, is never taken, since the poller never fails.
\<close>

theorem sector_erase_relocks:
  assumes "\<not> ((first OR lst) = 0 \<or> (first = 0 \<and> lst \<ge> num_sectors bank))"
    and "hc32l110_erase bank first lst w = Some (r, w')"
  shows "\<exists>pre. trace w' = pre @ [Write HC32L110_FLASH_BYPASS 0x5a5a,
           Write HC32L110_FLASH_BYPASS 0xa5a5, Write HC32L110_FLASH_SLOCK 0]"
proof -
  from assms obtain r1 w1 where l: "erase_loop bank first lst w = Some (r1, w1)"
    by (auto simp: hc32l110_erase_def split: option.splits)
  then have "r1 = ERROR_OK" by (rule erase_loop_ok)
  with assms l have "w' = hc32l110_slock_all w1"
    by (auto simp: hc32l110_erase_def)
  then show ?thesis by (simp add: trace_slock_all)
qed


theorem sector_erase_relocks_witness:
  "\<not> (((1::u32) OR 3) = 0 \<or> ((1::u32) = 0 \<and> (3::u32) \<ge> num_sectors bank64)) \<and>
   (\<exists>w'. hc32l110_erase bank64 1 3 idle_target = Some (ERROR_OK, w') \<and>
      (\<exists>pre. trace w' = pre @ [Write HC32L110_FLASH_BYPASS 0x5a5a,
           Write HC32L110_FLASH_BYPASS 0xa5a5, Write HC32L110_FLASH_SLOCK 0]))"
proof -
  have a: "\<not> (((1::u32) OR 3) = 0 \<or> ((1::u32) = 0 \<and> (3::u32) \<ge> num_sectors bank64))"
    by simp
  have "clock_unbounded (clk idle_target)"
    by (simp add: idle_target_def clock_unbounded_int)
  from erase_returns [OF this, of bank64 1 3]
  obtain w' where e: "hc32l110_erase bank64 1 3 idle_target = Some (ERROR_OK, w')" by blast
  from sector_erase_relocks [OF a e] a e show ?thesis by blast
qed

subsection \<open>Choosing between mass erase and per-sector erase\<close>

lemma mask_full: "sunlock_mask 0 32768 = 0xFF"
  by (simp add: sunlock_mask_def SPROT_SEC_SIZE_def sunlock_loop.simps)


text \<open>
  Claim C5: the mass-erase path is taken exactly when \<open>first = 0\<close> and \<open>last = 0\<close>, or
  \<open>first = 0\<close> and \<open>last\<close> is at least the number of sectors. On it the driver selects
  the chip-erase operation, unlocks \<open>[0, 32768)\<close> (mask \<open>0xFF\<close>), writes the trigger to
  address 0 and polls with a timeout of 3500 ms. On the other path every sector is
  polled with a timeout of 50 ms.
\<close>

theorem erase_path_selection:
  "hc32l110_erase bank first lst w =
     (if (first = 0 \<and> lst = 0) \<or> (first = 0 \<and> lst \<ge> num_sectors bank) then
        (case hc32l110_check_flash_completion
                (w\<lparr>trace := trace w @
                   [Write HC32L110_FLASH_BYPASS 0x5a5a, Write HC32L110_FLASH_BYPASS 0xa5a5,
                    Write HC32L110_FLASH_CR FLASH_OP_ERASE_CHIP,
                    Write HC32L110_FLASH_BYPASS 0x5a5a, Write HC32L110_FLASH_BYPASS 0xa5a5,
                    Write HC32L110_FLASH_SLOCK 0xFF,
                    Write 0 0]\<rparr>) 3500 of
           None \<Rightarrow> None
         | Some (r, w') \<Rightarrow> Some (ERROR_OK, hc32l110_slock_all w'))
      else
        (case erase_loop bank first lst w of
           None \<Rightarrow> None
         | Some (r, w') \<Rightarrow> Some (ERROR_OK, hc32l110_slock_all w')))
   \<and> (x < lst \<longrightarrow>
        erase_loop bank x lst w =
          (case hc32l110_check_flash_completion
                  (w\<lparr>trace := trace w @
                     [Write HC32L110_FLASH_BYPASS 0x5a5a, Write HC32L110_FLASH_BYPASS 0xa5a5,
                      Write HC32L110_FLASH_CR FLASH_OP_ERASE_SECTOR,
                      Write HC32L110_FLASH_BYPASS 0x5a5a, Write HC32L110_FLASH_BYPASS 0xa5a5,
                      Write HC32L110_FLASH_BYPASS 0x5a5a, Write HC32L110_FLASH_BYPASS 0xa5a5,
                      Write HC32L110_FLASH_SLOCK
                        (sunlock_mask (sint (base bank + x * 512)) (sint (base bank + x * 512 + 512))),
                      Write HC32L110_FLASH_SLOCK (push_bit (unat (x div 4)) 1),
                      Write (base bank + x * 512) 0]\<rparr>) 50 of
             None \<Rightarrow> None
           | Some (r, w') \<Rightarrow> erase_loop bank (x + 1) lst w'))"
proof (intro conjI impI)
  have c: "((first OR lst) = 0 \<or> (first = 0 \<and> lst \<ge> num_sectors bank)) \<longleftrightarrow>
           ((first = 0 \<and> lst = 0) \<or> (first = 0 \<and> lst \<ge> num_sectors bank))"
    by (simp add: or_eq_0_iff)
  show "hc32l110_erase bank first lst w =
     (if (first = 0 \<and> lst = 0) \<or> (first = 0 \<and> lst \<ge> num_sectors bank) then
        (case hc32l110_check_flash_completion
                (w\<lparr>trace := trace w @
                   [Write HC32L110_FLASH_BYPASS 0x5a5a, Write HC32L110_FLASH_BYPASS 0xa5a5,
                    Write HC32L110_FLASH_CR FLASH_OP_ERASE_CHIP,
                    Write HC32L110_FLASH_BYPASS 0x5a5a, Write HC32L110_FLASH_BYPASS 0xa5a5,
                    Write HC32L110_FLASH_SLOCK 0xFF,
                    Write 0 0]\<rparr>) 3500 of
           None \<Rightarrow> None
         | Some (r, w') \<Rightarrow> Some (ERROR_OK, hc32l110_slock_all w'))
      else
        (case erase_loop bank first lst w of
           None \<Rightarrow> None
         | Some (r, w') \<Rightarrow> Some (ERROR_OK, hc32l110_slock_all w')))"
    unfolding hc32l110_erase_def c
    by (auto simp: Let_def hc32l110_sunlock_def hc32l110_bypass_def target_write_u32_def mask_full
             split: option.splits dest: check_completion_ok erase_loop_ok)
next
  assume "x < lst"
  then show "erase_loop bank x lst w =
          (case hc32l110_check_flash_completion
                  (w\<lparr>trace := trace w @
                     [Write HC32L110_FLASH_BYPASS 0x5a5a, Write HC32L110_FLASH_BYPASS 0xa5a5,
                      Write HC32L110_FLASH_CR FLASH_OP_ERASE_SECTOR,
                      Write HC32L110_FLASH_BYPASS 0x5a5a, Write HC32L110_FLASH_BYPASS 0xa5a5,
                      Write HC32L110_FLASH_BYPASS 0x5a5a, Write HC32L110_FLASH_BYPASS 0xa5a5,
                      Write HC32L110_FLASH_SLOCK
                        (sunlock_mask (sint (base bank + x * 512)) (sint (base bank + x * 512 + 512))),
                      Write HC32L110_FLASH_SLOCK (push_bit (unat (x div 4)) 1),
                      Write (base bank + x * 512) 0]\<rparr>) 50 of
             None \<Rightarrow> None
           | Some (r, w') \<Rightarrow> erase_loop bank (x + 1) lst w')"
    by (subst erase_loop.simps)
       (auto simp: Let_def hc32l110_sunlock_def hc32l110_bypass_def target_write_u32_def
                   FLASH_SECTOR_SIZE_def
             split: option.splits dest: check_completion_ok)
qed

theorem erase_path_selection_witness:
  "(2::u32) < 3 \<and>
   outcome (hc32l110_erase bank64 0 64 idle_target) =
     Some (ERROR_OK,
       [Write HC32L110_FLASH_BYPASS 0x5a5a, Write HC32L110_FLASH_BYPASS 0xa5a5,
        Write HC32L110_FLASH_CR FLASH_OP_ERASE_CHIP,
        Write HC32L110_FLASH_BYPASS 0x5a5a, Write HC32L110_FLASH_BYPASS 0xa5a5,
        Write HC32L110_FLASH_SLOCK 0xFF,
        Write 0 0,
        Read HC32L110_FLASH_CR 0,
        Write HC32L110_FLASH_BYPASS 0x5a5a, Write HC32L110_FLASH_BYPASS 0xa5a5,
        Write HC32L110_FLASH_SLOCK 0]) \<and>
   outcome (erase_loop bank64 2 3 idle_target) =
     Some (ERROR_OK,
       [Write HC32L110_FLASH_BYPASS 0x5a5a, Write HC32L110_FLASH_BYPASS 0xa5a5,
        Write HC32L110_FLASH_CR FLASH_OP_ERASE_SECTOR,
        Write HC32L110_FLASH_BYPASS 0x5a5a, Write HC32L110_FLASH_BYPASS 0xa5a5,
        Write HC32L110_FLASH_BYPASS 0x5a5a, Write HC32L110_FLASH_BYPASS 0xa5a5,
        Write HC32L110_FLASH_SLOCK 1,
        Write HC32L110_FLASH_SLOCK 1,
        Write 1024 0,
        Read HC32L110_FLASH_CR 0])"
proof -
  have lt: "(2::u32) < 3" by simp
  have a: "outcome (hc32l110_erase bank64 0 64 idle_target) =
     Some (ERROR_OK,
       [Write HC32L110_FLASH_BYPASS 0x5a5a, Write HC32L110_FLASH_BYPASS 0xa5a5,
        Write HC32L110_FLASH_CR FLASH_OP_ERASE_CHIP,
        Write HC32L110_FLASH_BYPASS 0x5a5a, Write HC32L110_FLASH_BYPASS 0xa5a5,
        Write HC32L110_FLASH_SLOCK 0xFF,
        Write 0 0,
        Read HC32L110_FLASH_CR 0,
        Write HC32L110_FLASH_BYPASS 0x5a5a, Write HC32L110_FLASH_BYPASS 0xa5a5,
        Write HC32L110_FLASH_SLOCK 0])"
    by (subst erase_path_selection [THEN conjunct1])
       (simp add: outcome_def bank64_def idle_target_def hc32l110_check_flash_completion_def
          completion_loop.simps timeval_ms_def target_read_u32_def alive_sleep_def
          HC32L110_FLASH_CR_BUSY_def hc32l110_slock_all_def hc32l110_bypass_def
          target_write_u32_def)
  have b: "outcome (erase_loop bank64 2 3 idle_target) =
     Some (ERROR_OK,
       [Write HC32L110_FLASH_BYPASS 0x5a5a, Write HC32L110_FLASH_BYPASS 0xa5a5,
        Write HC32L110_FLASH_CR FLASH_OP_ERASE_SECTOR,
        Write HC32L110_FLASH_BYPASS 0x5a5a, Write HC32L110_FLASH_BYPASS 0xa5a5,
        Write HC32L110_FLASH_BYPASS 0x5a5a, Write HC32L110_FLASH_BYPASS 0xa5a5,
        Write HC32L110_FLASH_SLOCK 1,
        Write HC32L110_FLASH_SLOCK 1,
        Write 1024 0,
        Read HC32L110_FLASH_CR 0])"
    by (subst erase_path_selection [THEN conjunct2, THEN mp, OF lt])
       (simp add: outcome_def bank64_def idle_target_def hc32l110_check_flash_completion_def
          completion_loop.simps timeval_ms_def target_read_u32_def alive_sleep_def
          HC32L110_FLASH_CR_BUSY_def erase_loop.simps
          sunlock_mask_def SPROT_SEC_SIZE_def sunlock_loop.simps)
  from lt a b show ?thesis by simp
qed


subsection \<open>The second lock-register write of the per-sector loop\<close>

text \<open>
  Claim C8 says that every write to the sector-lock register comes right after the
  bypass handshake. In the per-sector loop the write of \<open>1 << (x / 4)\<close> (line 120) comes
  right after the lock-register write of \<open>hc32l110_sunlock\<close> instead: the run of
  \<open>erase(1, 2)\<close> below does not keep the lock register guarded.
\<close>

theorem sector_erase_unguarded_lock_write:
  "outcome (hc32l110_erase bank64 1 2 idle_target) =
     Some (ERROR_OK,
       [Write HC32L110_FLASH_BYPASS 0x5a5a, Write HC32L110_FLASH_BYPASS 0xa5a5,
        Write HC32L110_FLASH_CR FLASH_OP_ERASE_SECTOR,
        Write HC32L110_FLASH_BYPASS 0x5a5a, Write HC32L110_FLASH_BYPASS 0xa5a5,
        Write HC32L110_FLASH_BYPASS 0x5a5a, Write HC32L110_FLASH_BYPASS 0xa5a5,
        Write HC32L110_FLASH_SLOCK 1,
        Write HC32L110_FLASH_SLOCK 1,
        Write 512 0,
        Read HC32L110_FLASH_CR 0,
        Write HC32L110_FLASH_BYPASS 0x5a5a, Write HC32L110_FLASH_BYPASS 0xa5a5,
        Write HC32L110_FLASH_SLOCK 0]) \<and>
   \<not> slock_guarded
       [Write HC32L110_FLASH_BYPASS 0x5a5a, Write HC32L110_FLASH_BYPASS 0xa5a5,
        Write HC32L110_FLASH_CR FLASH_OP_ERASE_SECTOR,
        Write HC32L110_FLASH_BYPASS 0x5a5a, Write HC32L110_FLASH_BYPASS 0xa5a5,
        Write HC32L110_FLASH_BYPASS 0x5a5a, Write HC32L110_FLASH_BYPASS 0xa5a5,
        Write HC32L110_FLASH_SLOCK 1,
        Write HC32L110_FLASH_SLOCK 1,
        Write 512 0,
        Read HC32L110_FLASH_CR 0,
        Write HC32L110_FLASH_BYPASS 0x5a5a, Write HC32L110_FLASH_BYPASS 0xa5a5,
        Write HC32L110_FLASH_SLOCK 0]"
  by code_simp


subsection \<open>The region-lock mask\<close>

lemma span_intersects_region_iff:
  "span_intersects_region s e i \<longleftrightarrow>
     (\<exists>a. s \<le> a \<and> a < e \<and> int i * 4096 \<le> a \<and> a < (int i + 1) * 4096)"
proof
  assume "span_intersects_region s e i"
  then have "s \<le> max s (int i * 4096) \<and> max s (int i * 4096) < e \<and>
      int i * 4096 \<le> max s (int i * 4096) \<and> max s (int i * 4096) < (int i + 1) * 4096"
    by (simp add: span_intersects_region_def)
  then show "\<exists>a. s \<le> a \<and> a < e \<and> int i * 4096 \<le> a \<and> a < (int i + 1) * 4096"
    by blast
next
  assume "\<exists>a. s \<le> a \<and> a < e \<and> int i * 4096 \<le> a \<and> a < (int i + 1) * 4096"
  then show "span_intersects_region s e i"
    by (auto simp: span_intersects_region_def)
qed

lemma bit_sunlock_loop:
  "0 \<le> i \<Longrightarrow> bit (sunlock_loop i e b) n \<longleftrightarrow> bit b n \<or> (n < 32 \<and> i \<le> int n \<and> int n < e)"
proof (induction i e b rule: sunlock_loop.induct)
  case (1 i e b)
  show ?case
  proof (cases "i < e")
    case False
    then show ?thesis by (auto simp: sunlock_loop.simps)
  next
    case True
    have p: "bit (push_bit (nat i) (1::u32)) n \<longleftrightarrow> n < 32 \<and> int n = i"
      using "1.prems" by (auto simp: bit_simps)
    from "1.prems" have "0 \<le> i + 1" by simp
    from "1.IH" [OF True this] True p show ?thesis
      by (subst sunlock_loop.simps) (auto simp: bit_simps)
  qed
qed

lemma sdiv_nonneg: "0 \<le> k \<Longrightarrow> k sdiv 4096 = k div (4096::int)"
  by (simp add: signed_divide_int_def sgn_if)


text \<open>
  Claim C6, amended: for a span that is not empty, \<open>0 \<le> start_adr < end_adr\<close>, bit \<open>i\<close> of
  the mask is set exactly when the span intersects region \<open>i\<close>. The bound on \<open>end_adr\<close>
  keeps every shift \<open>1 << i\<close> of the loop below 31, where C defines it.
\<close>

theorem sunlock_mask_nonempty_span:
  assumes "0 \<le> start_adr" "start_adr < end_adr" "end_adr \<le> 126976"
  shows "bit (sunlock_mask start_adr end_adr) i \<longleftrightarrow> span_intersects_region start_adr end_adr i"
proof -
  from assms have "0 \<le> end_adr + SPROT_SEC_SIZE - 1"
    by (simp add: SPROT_SEC_SIZE_def)
  with assms have m: "sunlock_mask start_adr end_adr =
      sunlock_loop (start_adr div 4096) ((end_adr + 4095) div 4096) 0"
    unfolding sunlock_mask_def Let_def
    by (simp add: SPROT_SEC_SIZE_def sdiv_nonneg add.commute)
  have "0 \<le> start_adr div 4096" using assms by simp
  then have "bit (sunlock_mask start_adr end_adr) i \<longleftrightarrow>
      i < 32 \<and> start_adr div 4096 \<le> int i \<and> int i < (end_adr + 4095) div 4096"
    by (simp add: m bit_sunlock_loop)
  also have "\<dots> \<longleftrightarrow> span_intersects_region start_adr end_adr i"
    using assms unfolding span_intersects_region_def by auto
  finally show ?thesis .
qed

theorem sunlock_mask_nonempty_span_witness:
  "(0::int) \<le> 2048 \<and> (2048::int) < 8192 \<and> (8192::int) \<le> 126976 \<and>
   bit (sunlock_mask 2048 8192) 1 \<and> span_intersects_region 2048 8192 1 \<and>
   \<not> bit (sunlock_mask 2048 8192) 2 \<and> \<not> span_intersects_region 2048 8192 2"
  using sunlock_mask_nonempty_span [of 2048 8192 1] sunlock_mask_nonempty_span [of 2048 8192 2]
  by (simp add: span_intersects_region_def)

text \<open>
  Claim C6 as stated also covers the empty span \<open>start_adr = end_adr\<close>. There it
  fails: the span \<open>[100, 100)\<close> intersects no region, yet the mask has bit 0 set, since
  the end is rounded up to the next region boundary.
\<close>

theorem sunlock_mask_empty_span:
  "bit (sunlock_mask 100 100) 0 \<and> \<not> span_intersects_region 100 100 0"
  by (simp add: sunlock_mask_def SPROT_SEC_SIZE_def sunlock_loop.simps span_intersects_region_def)

subsection \<open>Probe\<close>

lemma unat_succ_less: "i < (n::u32) \<Longrightarrow> unat (i + 1) = Suc (unat i)"
  using unsigned_less [of n, where 'a = nat]
  by (simp add: word_less_nat_alt unat_word_ariths)

lemma probe_loop_nth:
  "length secs = unat n \<Longrightarrow> i \<le> n \<Longrightarrow>
   length (probe_loop i n off secs) = unat n \<and>
   (\<forall>j < unat n. probe_loop i n off secs ! j =
      (if unat i \<le> j then fresh_sector (off + 512 * of_nat (j - unat i)) else secs ! j))"
proof (induction i n off secs rule: probe_loop.induct)
  case (1 i n off secs)
  show ?case
  proof (cases "i < n")
    case False
    with "1.prems" have "i = n" by simp
    with "1.prems" show ?thesis by (simp add: probe_loop.simps)
  next
    case True
    define secs1 where "secs1 = secs[unat i := \<lparr>sec_offset = off, sec_size = FLASH_SECTOR_SIZE,
                                     is_erased = - 1, is_protected = 0\<rparr>]"
    from True "1.prems" have li: "unat i < length secs"
      by (simp add: word_less_nat_alt)
    then have at_i: "secs1 ! unat i = fresh_sector off"
      by (simp add: secs1_def fresh_sector_def FLASH_SECTOR_SIZE_def)
    have su: "unat (i + 1) = Suc (unat i)" using True by (rule unat_succ_less)
    have len1: "length secs1 = unat n" using "1.prems" by (simp add: secs1_def)
    have le1: "i + 1 \<le> n" using True by (simp add: inc_le)
    from "1.IH" [OF True secs1_def len1 le1]
    have ih: "length (probe_loop (i + 1) n (off + sec_size (secs1 ! unat i)) secs1) = unat n"
      "\<And>j. j < unat n \<Longrightarrow> probe_loop (i + 1) n (off + sec_size (secs1 ! unat i)) secs1 ! j =
        (if unat (i + 1) \<le> j then fresh_sector (off + sec_size (secs1 ! unat i) + 512 * of_nat (j - unat (i + 1)))
         else secs1 ! j)"
      by auto
    have unfold: "probe_loop i n off secs = probe_loop (i + 1) n (off + sec_size (secs1 ! unat i)) secs1"
      using True by (subst probe_loop.simps) (simp add: Let_def secs1_def)
    have "probe_loop i n off secs ! j =
      (if unat i \<le> j then fresh_sector (off + 512 * of_nat (j - unat i)) else secs ! j)"
      if j: "j < unat n" for j
    proof (cases "unat i < j")
      case True
      then have "(of_nat (j - unat i) :: u32) = of_nat (j - Suc (unat i)) + 1"
        by (metis Suc_diff_Suc of_nat_Suc add.commute)
      then have eq: "off + 512 + 512 * of_nat (j - Suc (unat i)) =
          off + 512 * (of_nat (j - unat i) :: u32)"
        by (simp add: ring_distribs)
      have sz: "sec_size (secs1 ! unat i) = 512"
        by (simp add: at_i fresh_sector_def)
      from True have "unat (i + 1) \<le> j" by (simp add: su)
      with ih(2) [OF j] have "probe_loop i n off secs ! j =
          fresh_sector (off + 512 + 512 * of_nat (j - Suc (unat i)))"
        by (simp only: unfold sz su if_True)
      with True show ?thesis by (simp only: eq) simp
    next
      case False
      show ?thesis
      proof (cases "j = unat i")
        case True
        then have "\<not> unat (i + 1) \<le> j" by (simp add: su)
        with ih(2) [OF j] have "probe_loop i n off secs ! j = secs1 ! j"
          by (simp only: unfold if_False)
        with True show ?thesis by (simp add: at_i)
      next
        case ne: False
        with False have lt: "j < unat i" by simp
        then have "\<not> unat (i + 1) \<le> j" by (simp add: su)
        with ih(2) [OF j] have "probe_loop i n off secs ! j = secs1 ! j"
          by (simp only: unfold if_False)
        with lt show ?thesis by (simp add: secs1_def)
      qed
    qed
    with ih(1) show ?thesis by (simp add: unfold)
  qed
qed

lemma probe_loop_table:
  "probe_loop 0 n 0 (replicate (unat n) uninit) =
     map (\<lambda>j. fresh_sector (512 * of_nat j)) [0..<unat n]"
proof (rule nth_equalityI)
  show "length (probe_loop 0 n 0 (replicate (unat n) uninit)) =
      length (map (\<lambda>j. fresh_sector (512 * of_nat j)) [0..<unat n])"
    using probe_loop_nth [of "replicate (unat n) uninit" n 0 0] by simp
next
  fix j assume "j < length (probe_loop 0 n 0 (replicate (unat n) uninit))"
  then have "j < unat n"
    using probe_loop_nth [of "replicate (unat n) uninit" n 0 0] by simp
  then show "probe_loop 0 n 0 (replicate (unat n) uninit) ! j =
      map (\<lambda>j. fresh_sector (512 * of_nat j)) [0..<unat n] ! j"
    using probe_loop_nth [of "replicate (unat n) uninit" n 0 0] by simp
qed


text \<open>
  Claim C7: the probe fails exactly when the value read from the size register lies
  outside \<open>[4096, 32768]\<close>, and then returns the bank as it was. Otherwise it sets the
  size of the bank to that value and builds \<open>size / 512\<close> sectors at the offsets 0, 512,
  1024, ..., each of size 512, with erased state unknown (\<open>-1\<close>) and not protected.
\<close>

theorem probe_spec:
  "hc32l110_probe uninit bank w =
     (let flash_size = rd w (nrd w);
          w1 = w\<lparr>trace := trace w @ [Read HC32L110_FLASH_SIZE flash_size], nrd := Suc (nrd w)\<rparr>
      in if flash_size < 4096 \<or> 32768 < flash_size
         then (ERROR_FLASH_OPERATION_FAILED, bank, w1)
         else (ERROR_OK,
               bank\<lparr>bank_size := flash_size,
                    num_sectors := flash_size div 512,
                    sectors := map (\<lambda>i. \<lparr>sec_offset = 512 * of_nat i, sec_size = 512,
                                          is_erased = - 1, is_protected = 0\<rparr>)
                                   [0..<unat flash_size div 512]\<rparr>,
               w1))"
proof -
  have d: "unat (x div 512 :: u32) = unat x div 512" for x
    by (simp add: unat_div)
  show ?thesis
    using probe_loop_table [of "rd w (nrd w) div 512" uninit]
    by (auto simp: hc32l110_probe_def target_read_u32_def Let_def FLASH_SECTOR_SIZE_def d
        fresh_sector_def)
qed

theorem probe_spec_witness:
  "map (\<lambda>v. fst (hc32l110_probe junk_sector bank64 (idle_target\<lparr>rd := (\<lambda>k. v)\<rparr>)))
       [0, 4095, 32769, 4096, 16384, 32768] =
     [ERROR_FLASH_OPERATION_FAILED, ERROR_FLASH_OPERATION_FAILED, ERROR_FLASH_OPERATION_FAILED,
      ERROR_OK, ERROR_OK, ERROR_OK] \<and>
   fst (snd (hc32l110_probe junk_sector bank64 (idle_target\<lparr>rd := (\<lambda>k. 4095)\<rparr>))) = bank64 \<and>
   fst (snd (hc32l110_probe junk_sector bank64 (idle_target\<lparr>rd := (\<lambda>k. 4096)\<rparr>))) =
     \<lparr>base = 0, bank_size = 4096, num_sectors = 8,
      sectors = map (\<lambda>i. \<lparr>sec_offset = 512 * of_nat i, sec_size = 512,
                           is_erased = - 1, is_protected = 0\<rparr>) [0..<8]\<rparr>"
  by (simp add: probe_spec idle_target_def bank64_def Let_def)

subsection \<open>Program: the words written\<close>

lemma gather_step:
  "(if i < sint count \<and> i \<ge> 0
    then v1 OR push_bit 24 (ucast (buffer ! nat i))
    else v1 OR 0xFF000000) = v1 OR push_bit 24 (ucast (pad_byte buffer count i) :: u32)"
  by (simp add: pad_byte_def)

lemma gather_loop_eq:
  "gather_loop buffer count x 0 0 =
     ucast (pad_byte buffer count x) OR push_bit 8 (ucast (pad_byte buffer count (x + 1)))
     OR push_bit 16 (ucast (pad_byte buffer count (x + 2)))
     OR push_bit 24 (ucast (pad_byte buffer count (x + 3)))"
proof -
  have "gather_loop buffer count x 0 0 =
    drop_bit 8 (drop_bit 8 (drop_bit 8 (push_bit 24 (ucast (pad_byte buffer count x)))
       OR push_bit 24 (ucast (pad_byte buffer count (x + 1))))
       OR push_bit 24 (ucast (pad_byte buffer count (x + 2))))
       OR push_bit 24 (ucast (pad_byte buffer count (x + 3)))"
    by (simp add: gather_loop.simps [of _ _ _ 0] gather_loop.simps [of _ _ _ 1]
        gather_loop.simps [of _ _ _ 2] gather_loop.simps [of _ _ _ 3] gather_loop.simps [of _ _ _ 4]
        Let_def gather_step)
       (simp add: pad_byte_def [of buffer count x])
  also have "\<dots> = ucast (pad_byte buffer count x) OR push_bit 8 (ucast (pad_byte buffer count (x + 1)))
     OR push_bit 16 (ucast (pad_byte buffer count (x + 2)))
     OR push_bit 24 (ucast (pad_byte buffer count (x + 3)))"
    by (rule bit_eqI) (auto simp: bit_simps dest: bit_imp_le_length)
  finally show ?thesis .
qed

lemma word_byte_gather:
  "j < 4 \<Longrightarrow> word_byte (gather_loop buffer count x 0 0) j = pad_byte buffer count (x + int j)"
proof -
  assume "j < 4"
  then consider "j = 0" | "j = 1" | "j = 2" | "j = 3" by linarith
  then show ?thesis
  proof cases
    case 1 then show ?thesis
      unfolding gather_loop_eq word_byte_def
      by (intro bit_eqI) (auto simp: bit_simps dest: bit_imp_le_length)
  next
    case 2 then show ?thesis
      unfolding gather_loop_eq word_byte_def
      by (intro bit_eqI) (auto simp: bit_simps dest: bit_imp_le_length)
  next
    case 3 then show ?thesis
      unfolding gather_loop_eq word_byte_def
      by (intro bit_eqI) (auto simp: bit_simps dest: bit_imp_le_length)
  next
    case 4 then show ?thesis
      unfolding gather_loop_eq word_byte_def
      by (intro bit_eqI) (auto simp: bit_simps dest: bit_imp_le_length)
  qed
qed

lemma writes_of_Nil [simp]: "writes_of [] = []"
  by (simp add: writes_of_def)

lemma writes_of_Write [simp]: "writes_of (Write a v # es) = (a, v) # writes_of es"
  by (simp add: writes_of_def)

lemma writes_of_append [simp]: "writes_of (es @ fs) = writes_of es @ writes_of fs"
  by (simp add: writes_of_def)

lemma writes_of_reads: "list_all is_read rs \<Longrightarrow> writes_of rs = []"
  by (induction rs) (auto simp: writes_of_def is_read_def split: event.splits)

lemma write_loop_trace:
  "write_loop buffer offset count x w = Some (r, w') \<Longrightarrow>
   \<exists>body. trace w' = trace w @ body \<and>
     writes_of body = map (word_at buffer offset count x) [0..<nat ((sint count - x + 3) div 4)]"
proof (induction buffer offset count x w rule: write_loop.induct)
  case (1 buffer offset count x w)
  show ?case
  proof (cases "x < sint count")
    case False
    then have "nat ((sint count - x + 3) div 4) = 0" by simp
    with False "1.prems" show ?thesis by (simp add: write_loop.simps)
  next
    case True
    define v where "v = gather_loop buffer count x 0 0"
    define w1 where "w1 = target_write_u32 w (offset + word_of_int x) v"
    from True "1.prems" obtain w2 where
      p: "hc32l110_check_flash_completion w1 1 = Some (ERROR_OK, w2)"
      and l: "write_loop buffer offset count (x + 4) w2 = Some (r, w')"
      by (subst (asm) write_loop.simps)
         (auto simp: Let_def v_def w1_def
               split: option.splits if_splits dest: check_completion_ok)
    from "1.IH" [OF True v_def w1_def p refl _ l]
    obtain body where b: "trace w' = trace w2 @ body"
      "writes_of body = map (word_at buffer offset count (x + 4))
          [0..<nat ((sint count - (x + 4) + 3) div 4)]"
      by auto
    from check_completion_frame [OF p] obtain rs where
      rs: "trace w2 = trace w1 @ rs" "list_all is_read rs" by blast
    have t1: "trace w1 = trace w @ [Write (offset + word_of_int x) v]"
      by (simp add: w1_def target_write_u32_def)
    from True obtain m where m: "nat ((sint count - x + 3) div 4) = Suc m"
      by (cases "nat ((sint count - x + 3) div 4)") auto
    then have m': "nat ((sint count - (x + 4) + 3) div 4) = m" by simp
    have sh: "word_at buffer offset count (x + 4) k = word_at buffer offset count x (Suc k)" for k
      by (simp add: word_at_def algebra_simps)
    have b2: "writes_of body = map (word_at buffer offset count (x + 4)) [0..<m]"
      using b(2) unfolding m' .
    have ms: "map (word_at buffer offset count x) [0..<Suc m] =
        word_at buffer offset count x 0 # map (word_at buffer offset count (x + 4)) [0..<m]"
      by (simp add: sh map_upt_Suc del: upt_Suc)
    have w0: "word_at buffer offset count x 0 = (offset + word_of_int x, v)"
      by (simp add: word_at_def v_def)
    have "writes_of (Write (offset + word_of_int x) v # rs @ body) =
        (offset + word_of_int x, v) # writes_of body"
      using rs(2) by (simp add: writes_of_reads)
    also have "\<dots> = map (word_at buffer offset count x) [0..<Suc m]"
      unfolding ms w0 b2 ..
    finally have "writes_of (Write (offset + word_of_int x) v # rs @ body) =
        map (word_at buffer offset count x) [0..<nat ((sint count - x + 3) div 4)]"
      unfolding m .
    moreover have "trace w' = trace w @ (Write (offset + word_of_int x) v # rs @ body)"
      by (simp add: b(1) rs(1) t1)
    ultimately show ?thesis by blast
  qed
qed

lemma write_single_trace:
  assumes "hc32l110_write_single bank buffer offset count w = Some (r, w')"
  shows "\<exists>body. trace w' = trace w @ prologue offset count @ body @ epilogue \<and>
     writes_of body = map (word_at buffer offset count (sint (- (offset mod 4))))
        [0..<nat ((sint count - sint (- (offset mod 4)) + 3) div 4)]"
proof -
  define w2 where "w2 = hc32l110_sunlock (target_write_u32 (hc32l110_bypass w)
      HC32L110_FLASH_CR FLASH_OP_PROGRAM)
      (sint (offset AND NOT 3)) (sint ((offset + count + 3) AND NOT 3))"
  have t2: "trace w2 = trace w @ prologue offset count"
    by (simp add: w2_def trace_sunlock trace_bypass target_write_u32_def prologue_def)
  from assms obtain r3 w3 where
    l: "write_loop buffer offset count (sint (- (offset mod 4))) w2 = Some (r3, w3)"
    by (auto simp: hc32l110_write_single_def Let_def w2_def split: option.splits)
  then have "r3 = ERROR_OK" by (rule write_loop_ok)
  with assms l have w': "w' = hc32l110_slock_all w3"
    by (auto simp: hc32l110_write_single_def Let_def w2_def)
  from write_loop_trace [OF l] obtain body where
    "trace w3 = trace w2 @ body"
    "writes_of body = map (word_at buffer offset count (sint (- (offset mod 4))))
        [0..<nat ((sint count - sint (- (offset mod 4)) + 3) div 4)]"
    by blast
  then show ?thesis
    by (auto simp: w' trace_slock_all t2 epilogue_def)
qed


lemma unat_and_not_3: "unat (x AND NOT 3 :: u32) = 4 * (unat x div 4)"
proof -
  have m: "(3::u32) = mask 2" by (simp add: mask_eq_exp_minus_1)
  have s: "2 \<le> n \<Longrightarrow> Suc (Suc (n - 2)) = n" for n by simp
  have "x AND NOT 3 = push_bit 2 (drop_bit 2 x)"
    unfolding m by (rule bit_eqI) (auto simp: bit_simps s not_less)
  then have "unat (x AND NOT 3) = take_bit 32 (push_bit 2 (drop_bit 2 (unat x)))"
    by (simp add: unsigned_push_bit_eq unat_drop_bit_eq)
  also have "\<dots> = (4 * (unat x div 4)) mod 2 ^ 32"
    by (simp add: take_bit_eq_mod push_bit_eq_mult drop_bit_eq_div mult.commute)
  also have "\<dots> = 4 * (unat x div 4)"
    using unsigned_less [of x, where 'a = nat] by simp
  finally show ?thesis .
qed

lemma sint_small: "unat (c::u32) < 2 ^ 31 \<Longrightarrow> sint c = int (unat c)"
proof -
  assume a: "unat c < 2 ^ 31"
  then have "unat c < 2147483648" by simp
  moreover have "int (unat c) = uint c" by simp
  ultimately have "uint c < 2147483648" by linarith
  then have "uint c < 2 ^ 31" by simp
  moreover have "- (2 ^ 31) \<le> uint c"
    by (rule order_trans [of _ 0]) simp_all
  ultimately have "signed_take_bit 31 (uint c) = uint c"
    by (intro signed_take_bit_int_eq_self) simp_all
  then show ?thesis by (simp add: sint_uint)
qed

lemma neg_start: "sint (- (offset mod 4 :: u32)) = - int (unat offset mod 4)"
proof -
  define w where "w = offset mod 4"
  have u: "unat w = unat offset mod 4" by (simp add: w_def unat_mod)
  then have "unat w < 4" by simp
  then have "unat w = 0 \<or> unat w = 1 \<or> unat w = 2 \<or> unat w = 3" by linarith
  then have "w = 0 \<or> w = 1 \<or> w = 2 \<or> w = 3"
    by (simp add: word_unat_eq_iff)
  then have "sint (- w) = - int (unat w)" by auto
  then show ?thesis by (simp only: u) (simp only: w_def)
qed

lemma address_unat:
  assumes "4 * (unat offset div 4) + 4 * k < 2 ^ 32"
  shows "unat (offset + word_of_int (- int (unat offset mod 4) + 4 * int k) :: u32) =
     4 * (unat offset div 4) + 4 * k"
proof -
  let ?y = "- int (unat offset mod 4) + 4 * int k"
  have "int (unat offset) - int (unat offset mod 4) = 4 * int (unat offset div 4)"
    unfolding zmod_int zdiv_int by (simp add: minus_mod_eq_mult_div)
  moreover have "int (unat offset) = uint offset" by simp
  ultimately have e: "uint offset + ?y = int (4 * (unat offset div 4) + 4 * k)"
    by linarith
  have "offset + word_of_int ?y = word_of_int (uint offset) + word_of_int ?y"
    by (simp only: word_of_int_uint)
  also have "\<dots> = word_of_int (uint offset + ?y)" by (simp only: of_int_add)
  also have "\<dots> = (word_of_nat (4 * (unat offset div 4) + 4 * k) :: u32)"
    by (simp only: e of_int_of_nat_eq)
  finally have "offset + word_of_int ?y = (word_of_nat (4 * (unat offset div 4) + 4 * k) :: u32)" .
  with assms show ?thesis by (simp only: unat_of_nat) simp
qed

lemma aligned_upt:
  "filter (\<lambda>a. a mod 4 = 0) [4 * A ..< 4 * (A + n)] = map (\<lambda>k. 4 * A + 4 * k) [0..<n]"
proof (induction n)
  case 0
  show ?case by simp
next
  case (Suc n)
  let ?j = "4 * (A + n)"
  have j4: "4 * (A + Suc n) = ?j + 4" by simp
  have "4 * A \<le> ?j" by simp
  then have "[4 * A ..< ?j + 4] = [4 * A ..< ?j] @ [?j ..< ?j + 4]"
    by (rule upt_add_eq_append)
  moreover have "[?j ..< ?j + 4] = [?j, ?j + 1, ?j + 2, ?j + 3]"
    by (simp add: upt_rec numeral_eq_Suc)
  moreover have "?j mod 4 = 0" "(?j + 1) mod 4 = 1" "(?j + 2) mod 4 = 2" "(?j + 3) mod 4 = 3"
    by presburger+
  then have "filter (\<lambda>a. a mod 4 = 0) [?j, ?j + 1, ?j + 2, ?j + 3] = [?j]"
    by (simp only: filter.simps) simp
  ultimately have "filter (\<lambda>a. a mod 4 = 0) [4 * A ..< 4 * (A + Suc n)] =
      filter (\<lambda>a. a mod 4 = 0) [4 * A ..< ?j] @ [?j]"
    by (simp only: j4 filter_append)
  also have "\<dots> = map (\<lambda>k. 4 * A + 4 * k) [0..<n] @ [4 * A + 4 * n]"
    by (simp only: Suc) (simp only: distrib_left)
  also have "\<dots> = map (\<lambda>k. 4 * A + 4 * k) [0..<Suc n]" by simp
  finally show ?case .
qed

text \<open>
  The number of rounds of the loop, the address of each round and the end of the aligned
  span, as natural numbers.
\<close>

lemma write_words:
  assumes c: "unat count < 2 ^ 31" and nw: "unat offset + unat count + 3 < 2 ^ 32"
  defines "n \<equiv> (unat count + unat offset mod 4 + 3) div 4"
  shows "nat ((sint count - sint (- (offset mod 4)) + 3) div 4) = n"
    and "k < n \<Longrightarrow> unat (fst (word_at buffer offset count (sint (- (offset mod 4))) k)) =
          4 * (unat offset div 4) + 4 * k"
    and "unat ((offset + count + 3) AND NOT 3) = 4 * (unat offset div 4 + n)"
proof -
  have sc: "sint count = int (unat count)" using c by (rule sint_small)
  have "(sint count - sint (- (offset mod 4)) + 3) div 4 =
      int ((unat count + unat offset mod 4 + 3) div 4)"
    unfolding sc neg_start by (simp add: zdiv_int)
  then show "nat ((sint count - sint (- (offset mod 4)) + 3) div 4) = n"
    by (simp only: n_def nat_int)
next
  assume "k < n"
  then have "4 * (unat offset div 4) + 4 * k < 2 ^ 32"
    using nw unfolding n_def by simp
  then show "unat (fst (word_at buffer offset count (sint (- (offset mod 4))) k)) =
          4 * (unat offset div 4) + 4 * k"
    unfolding word_at_def fst_conv neg_start by (rule address_unat)
next
  have "unat (offset + count + 3) = unat offset + unat count + 3"
    using nw by (simp add: unat_word_ariths)
  then have "unat ((offset + count + 3) AND NOT 3) = 4 * ((unat offset + unat count + 3) div 4)"
    by (simp only: unat_and_not_3)
  also have "(unat offset + unat count + 3) div 4 = unat offset div 4 + n"
    unfolding n_def by presburger
  finally show "unat ((offset + count + 3) AND NOT 3) = 4 * (unat offset div 4 + n)" .
qed

text \<open>
  Claim C3: the words a write programs go to exactly the 4-byte-aligned addresses of
  \<open>[offset & ~3, (offset + count + 3) & ~3)\<close>, in ascending order, each once. The span
  is one of the code's types: \<open>count\<close> fits the \<open>int32_t\<close> it is cast to, and
  \<open>offset + count + 3\<close> does not wrap; every range inside a bank (at most 32 KiB) is of
  this kind. \<open>body\<close> is what the loop adds to the trace, between the accesses made before
  it and the re-lock after it. The write returns when the clock is unbounded.
\<close>

theorem program_addresses:
  assumes "unat count < 2 ^ 31" and "unat offset + unat count + 3 < 2 ^ 32"
  shows "(clock_unbounded (clk w) \<longrightarrow>
           (\<exists>w'. hc32l110_write_single bank buffer offset count w = Some (ERROR_OK, w'))) \<and>
         (\<forall>r w'. hc32l110_write_single bank buffer offset count w = Some (r, w') \<longrightarrow>
           (\<exists>body. trace w' = trace w @ prologue offset count @ body @ epilogue \<and>
              map (\<lambda>(a, v). unat a) (writes_of body) =
                filter (\<lambda>a. a mod 4 = 0)
                  [unat (offset AND NOT 3) ..< unat ((offset + count + 3) AND NOT 3)]))"
proof (intro conjI allI impI)
  assume "clock_unbounded (clk w)"
  then show "\<exists>w'. hc32l110_write_single bank buffer offset count w = Some (ERROR_OK, w')"
    by (rule write_single_returns)
next
  fix r w'
  assume "hc32l110_write_single bank buffer offset count w = Some (r, w')"
  from write_single_trace [OF this] obtain body where
    t: "trace w' = trace w @ prologue offset count @ body @ epilogue" and
    b: "writes_of body = map (word_at buffer offset count (sint (- (offset mod 4))))
        [0..<nat ((sint count - sint (- (offset mod 4)) + 3) div 4)]"
    by blast
  define n where "n = (unat count + unat offset mod 4 + 3) div 4"
  note ww = write_words [OF assms, folded n_def]
  have "map (\<lambda>(a, v). unat a) (writes_of body) =
      map (\<lambda>k. unat (fst (word_at buffer offset count (sint (- (offset mod 4))) k))) [0..<n]"
    unfolding b ww(1) by (simp add: case_prod_unfold comp_def)
  also have "\<dots> = map (\<lambda>k. 4 * (unat offset div 4) + 4 * k) [0..<n]"
    by (rule map_cong [OF refl]) (simp add: ww(2))
  also have "\<dots> = filter (\<lambda>a. a mod 4 = 0) [4 * (unat offset div 4) ..< 4 * (unat offset div 4 + n)]"
    by (rule aligned_upt [symmetric])
  finally have "map (\<lambda>(a, v). unat a) (writes_of body) =
      filter (\<lambda>a. a mod 4 = 0)
        [unat (offset AND NOT 3) ..< unat ((offset + count + 3) AND NOT 3)]"
    by (simp only: unat_and_not_3 [of offset] ww(3))
  with t show "\<exists>body. trace w' = trace w @ prologue offset count @ body @ epilogue \<and>
      map (\<lambda>(a, v). unat a) (writes_of body) =
        filter (\<lambda>a. a mod 4 = 0)
          [unat (offset AND NOT 3) ..< unat ((offset + count + 3) AND NOT 3)]"
    by blast
qed

theorem program_addresses_witness:
  "unat (3::u32) < 2 ^ 31 \<and> unat (2::u32) + unat (3::u32) + 3 < 2 ^ 32 \<and>
   clock_unbounded (clk idle_target) \<and>
   (\<exists>w' body. hc32l110_write_single bank64 [0xAA, 0xBB, 0xCC] 2 3 idle_target = Some (ERROR_OK, w') \<and>
      trace w' = trace idle_target @ prologue 2 3 @ body @ epilogue \<and>
      map (\<lambda>(a, v). unat a) (writes_of body) = [0, 4])"
proof -
  have h1: "unat (3::u32) < 2 ^ 31" by simp
  have h2: "unat (2::u32) + unat (3::u32) + 3 < 2 ^ 32" by simp
  have h3: "clock_unbounded (clk idle_target)"
    by (simp add: idle_target_def clock_unbounded_int)
  have f: "filter (\<lambda>a. a mod 4 = 0)
      [unat ((2::u32) AND NOT 3) ..< unat (((2::u32) + 3 + 3) AND NOT 3)] = [0, 4]"
    by code_simp
  note pa = program_addresses [OF h1 h2, of idle_target bank64 "[0xAA, 0xBB, 0xCC]", unfolded f]
  from pa [THEN conjunct1, rule_format, OF h3]
  obtain w' where e: "hc32l110_write_single bank64 [0xAA, 0xBB, 0xCC] 2 3 idle_target = Some (ERROR_OK, w')"
    by (rule exE)
  from pa [THEN conjunct2, rule_format, OF e]
  have "\<exists>body. trace w' = trace idle_target @ prologue 2 3 @ body @ epilogue \<and>
      map (\<lambda>(a, v). unat a) (writes_of body) = [0, 4]" .
  with e have "\<exists>w' body. hc32l110_write_single bank64 [0xAA, 0xBB, 0xCC] 2 3 idle_target = Some (ERROR_OK, w') \<and>
      trace w' = trace idle_target @ prologue 2 3 @ body @ epilogue \<and>
      map (\<lambda>(a, v). unat a) (writes_of body) = [0, 4]"
    by (intro exI [of _ w']) simp
  with h1 h2 h3 show ?thesis by (intro conjI)
qed


text \<open>
  Claim C4: in every word programmed, the byte at a bank-relative index inside
  \<open>[offset, offset + count)\<close> is the buffer byte of that index, and every other byte is
  \<open>0xFF\<close>. The buffer holds at least \<open>count\<close> bytes. Writing \<open>[0xAA, 0xBB, 0xCC]\<close> at
  offset 2 programs the bytes \<open>[0xFF, 0xFF, 0xAA, 0xBB]\<close> at address 0 and
  \<open>[0xCC, 0xFF, 0xFF, 0xFF]\<close> at address 4.
\<close>

theorem program_bytes:
  assumes "unat count < 2 ^ 31" and "unat offset + unat count + 3 < 2 ^ 32"
    and "unat count \<le> length buffer"
  shows "(\<forall>r w'. hc32l110_write_single bank buffer offset count w = Some (r, w') \<longrightarrow>
           (\<exists>body. trace w' = trace w @ prologue offset count @ body @ epilogue \<and>
              (\<forall>(a, v) \<in> set (writes_of body). \<forall>j<4.
                 word_byte v j =
                   (if unat offset \<le> unat a + j \<and> unat a + j < unat offset + unat count
                    then buffer ! (unat a + j - unat offset) else 0xFF)))) \<and>
         outcome (hc32l110_write bank64 [0xAA, 0xBB, 0xCC] 2 3 idle_target) =
           Some (ERROR_OK, prologue 2 3 @
             [Write 0 0xBBAAFFFF, Read HC32L110_FLASH_CR 0,
              Write 4 0xFFFFFFCC, Read HC32L110_FLASH_CR 0] @ epilogue) \<and>
         map (word_byte 0xBBAAFFFF) [0, 1, 2, 3] = [0xFF, 0xFF, 0xAA, 0xBB] \<and>
         map (word_byte 0xFFFFFFCC) [0, 1, 2, 3] = [0xCC, 0xFF, 0xFF, 0xFF]"
proof (intro conjI allI impI)
  fix r w'
  assume "hc32l110_write_single bank buffer offset count w = Some (r, w')"
  from write_single_trace [OF this] obtain body where
    t: "trace w' = trace w @ prologue offset count @ body @ epilogue" and
    b: "writes_of body = map (word_at buffer offset count (sint (- (offset mod 4))))
        [0..<nat ((sint count - sint (- (offset mod 4)) + 3) div 4)]"
    by blast
  define n where "n = (unat count + unat offset mod 4 + 3) div 4"
  note ww = write_words [OF assms(1,2), folded n_def]
  have sc: "sint count = int (unat count)" using assms(1) by (rule sint_small)
  have "word_byte v j =
      (if unat offset \<le> unat a + j \<and> unat a + j < unat offset + unat count
       then buffer ! (unat a + j - unat offset) else 0xFF)"
    if av: "(a, v) \<in> set (writes_of body)" and j: "j < 4" for a v j
  proof -
    from av obtain k where k: "k < n"
      and e: "(a, v) = word_at buffer offset count (sint (- (offset mod 4))) k"
      unfolding b ww(1) by auto
    have "v = snd (word_at buffer offset count (sint (- (offset mod 4))) k)"
      by (simp only: e [symmetric] snd_conv)
    then have v: "v = gather_loop buffer count (- int (unat offset mod 4) + 4 * int k) 0 0"
      by (simp only: word_at_def snd_conv neg_start)
    have "a = fst (word_at buffer offset count (sint (- (offset mod 4))) k)"
      by (simp only: e [symmetric] fst_conv)
    with ww(2) [OF k, of buffer] have a: "unat a = 4 * (unat offset div 4) + 4 * k"
      by (simp only:)
    have dm: "unat offset = 4 * (unat offset div 4) + unat offset mod 4"
      by (rule mult_div_mod_eq [symmetric])
    have i: "- int (unat offset mod 4) + 4 * int k + int j =
        int (unat a + j) - int (unat offset)"
      using dm unfolding a by linarith
    have c1: "(int (unat a + j) - int (unat offset) < int (unat count) \<and>
        0 \<le> int (unat a + j) - int (unat offset)) \<longleftrightarrow>
        (unat offset \<le> unat a + j \<and> unat a + j < unat offset + unat count)"
      by linarith
    have c2: "nat (int (unat a + j) - int (unat offset)) = unat a + j - unat offset"
      by linarith
    have "word_byte v j = pad_byte buffer count (- int (unat offset mod 4) + 4 * int k + int j)"
      unfolding v using j by (rule word_byte_gather)
    also have "\<dots> = (if unat offset \<le> unat a + j \<and> unat a + j < unat offset + unat count
       then buffer ! (unat a + j - unat offset) else 0xFF)"
      unfolding pad_byte_def i sc c1 c2 ..
    finally show ?thesis .
  qed
  with t show "\<exists>body. trace w' = trace w @ prologue offset count @ body @ epilogue \<and>
      (\<forall>(a, v) \<in> set (writes_of body). \<forall>j<4.
         word_byte v j =
           (if unat offset \<le> unat a + j \<and> unat a + j < unat offset + unat count
            then buffer ! (unat a + j - unat offset) else 0xFF))"
    by blast
next
  show "outcome (hc32l110_write bank64 [0xAA, 0xBB, 0xCC] 2 3 idle_target) =
           Some (ERROR_OK, prologue 2 3 @
             [Write 0 0xBBAAFFFF, Read HC32L110_FLASH_CR 0,
              Write 4 0xFFFFFFCC, Read HC32L110_FLASH_CR 0] @ epilogue)"
    by code_simp
next
  show "map (word_byte 0xBBAAFFFF) [0, 1, 2, 3] = [0xFF, 0xFF, 0xAA, 0xBB]"
    by code_simp
next
  show "map (word_byte 0xFFFFFFCC) [0, 1, 2, 3] = [0xCC, 0xFF, 0xFF, 0xFF]"
    by code_simp
qed



theorem program_bytes_witness:
  "unat (3::u32) < 2 ^ 31 \<and> unat (2::u32) + unat (3::u32) + 3 < 2 ^ 32 \<and>
   unat (3::u32) \<le> length [0xAA, 0xBB, 0xCC :: u8] \<and>
   (\<exists>w' body. hc32l110_write_single bank64 [0xAA, 0xBB, 0xCC] 2 3 idle_target = Some (ERROR_OK, w') \<and>
      trace w' = trace idle_target @ prologue 2 3 @ body @ epilogue \<and>
      (\<forall>(a, v) \<in> set (writes_of body). \<forall>j<4.
         word_byte v j =
           (if unat (2::u32) \<le> unat a + j \<and> unat a + j < unat (2::u32) + unat (3::u32)
            then [0xAA, 0xBB, 0xCC] ! (unat a + j - unat (2::u32)) else 0xFF)))"
proof -
  have h1: "unat (3::u32) < 2 ^ 31" by simp
  have h2: "unat (2::u32) + unat (3::u32) + 3 < 2 ^ 32" by simp
  have h3: "unat (3::u32) \<le> length [0xAA, 0xBB, 0xCC :: u8]" by simp
  have "clock_unbounded (clk idle_target)"
    by (simp add: idle_target_def clock_unbounded_int)
  from write_single_returns [OF this, of bank64 "[0xAA, 0xBB, 0xCC]" 2 3]
  obtain w' where e: "hc32l110_write_single bank64 [0xAA, 0xBB, 0xCC] 2 3 idle_target = Some (ERROR_OK, w')"
    by (rule exE)
  from program_bytes [OF h1 h2 h3, of bank64 idle_target, THEN conjunct1, rule_format, OF e]
  have "\<exists>body. trace w' = trace idle_target @ prologue 2 3 @ body @ epilogue \<and>
      (\<forall>(a, v) \<in> set (writes_of body). \<forall>j<4.
         word_byte v j =
           (if unat (2::u32) \<le> unat a + j \<and> unat a + j < unat (2::u32) + unat (3::u32)
            then [0xAA, 0xBB, 0xCC] ! (unat a + j - unat (2::u32)) else 0xFF))" .
  with e have "\<exists>w' body. hc32l110_write_single bank64 [0xAA, 0xBB, 0xCC] 2 3 idle_target = Some (ERROR_OK, w') \<and>
      trace w' = trace idle_target @ prologue 2 3 @ body @ epilogue \<and>
      (\<forall>(a, v) \<in> set (writes_of body). \<forall>j<4.
         word_byte v j =
           (if unat (2::u32) \<le> unat a + j \<and> unat a + j < unat (2::u32) + unat (3::u32)
            then [0xAA, 0xBB, 0xCC] ! (unat a + j - unat (2::u32)) else 0xFF))"
    by (intro exI [of _ w']) simp
  with h1 h2 h3 show ?thesis by (intro conjI)
qed

subsection \<open>The lock register at the trigger of a sector erase\<close>

lemma slock_held_from_append:
  "slock_held_from seen held (es @ fs) =
     slock_held_from (rev es @ seen) (slock_held_from seen held es) fs"
  by (induction es arbitrary: seen held) simp_all

lemma slock_held_append:
  "slock_held (past @ es) = slock_held_from (rev past) (slock_held past) es"
  by (simp add: slock_held_def slock_held_from_append)

lemma trigger_locks_append:
  "trigger_locks past (es @ fs) = trigger_locks past es @ trigger_locks (past @ es) fs"
  by (induction es arbitrary: past) simp_all

lemma trigger_locks_reads: "list_all is_read rs \<Longrightarrow> trigger_locks past rs = []"
  by (induction rs arbitrary: past) (auto simp: is_read_def split: event.splits)

lemma bit_sunlock_mask:
  assumes "0 \<le> s" "0 \<le> e"
  shows "bit (sunlock_mask s e) n \<longleftrightarrow> n < 32 \<and> s div 4096 \<le> int n \<and> int n < (e + 4095) div 4096"
proof -
  from assms have "0 \<le> e + SPROT_SEC_SIZE - 1"
    by (simp add: SPROT_SEC_SIZE_def)
  with assms have m: "sunlock_mask s e = sunlock_loop (s div 4096) ((e + 4095) div 4096) 0"
    unfolding sunlock_mask_def Let_def
    by (simp add: SPROT_SEC_SIZE_def sdiv_nonneg add.commute)
  have "0 \<le> s div 4096" using assms by simp
  then show ?thesis by (simp add: m bit_sunlock_loop)
qed

lemma sector_region: "k * 512 div 4096 = k div (8::nat)"
  by simp

lemma sector_span_end: "(k * 512 + 512 + 4095) div 4096 = k div (8::nat) + 1"
proof -
  have "(512 * (k + 8) + 511) div (512 * 8) = (512 * (k + 8) + 511) div 512 div 8"
    by (rule div_mult2_eq)
  also have "(512 * (k + 8) + 511) div 512 = k + 8" by simp
  also have "(k + 8) div 8 = k div 8 + 1" by simp
  finally show ?thesis by (simp add: algebra_simps)
qed

lemma sector_mask:
  assumes "k < 64"
  shows "sunlock_mask (int (k * 512)) (int (k * 512 + 512)) = push_bit (k * 512 div 4096) 1"
proof (rule bit_eqI)
  fix n
  have "int (k * 512) div 4096 = int (k * 512 div 4096)"
    by (simp add: zdiv_int)
  then have a: "int (k * 512) div 4096 = int (k div 8)"
    by (simp only: sector_region)
  have "(int (k * 512 + 512) + 4095) div 4096 = int ((k * 512 + 512 + 4095) div 4096)"
    by (simp add: zdiv_int)
  then have b: "(int (k * 512 + 512) + 4095) div 4096 = int (k div 8 + 1)"
    by (simp only: sector_span_end)
  have c: "k div 8 < 32" using assms by simp
  have "bit (sunlock_mask (int (k * 512)) (int (k * 512 + 512))) n \<longleftrightarrow>
      n < 32 \<and> int (k div 8) \<le> int n \<and> int n < int (k div 8 + 1)"
    unfolding bit_sunlock_mask [of "int (k * 512)" "int (k * 512 + 512)" n,
        OF of_nat_0_le_iff of_nat_0_le_iff] a b ..
  also have "\<dots> \<longleftrightarrow> n < 32 \<and> n = k div 8" by linarith
  also have "\<dots> \<longleftrightarrow> bit (push_bit (k div 8) (1::u32)) n"
    using c by (auto simp: bit_simps)
  finally show "bit (sunlock_mask (int (k * 512)) (int (k * 512 + 512))) n \<longleftrightarrow>
      bit (push_bit (k * 512 div 4096) (1::u32)) n"
    by (simp only: sector_region)
qed

lemma slock_held_round:
  "slock_held (past @ sector_round x adr) = Some (sunlock_mask (sint adr) (sint (adr + 512)))"
  by (simp add: slock_held_append sector_round_def HC32L110_FLASH_BYPASS_def
      HC32L110_FLASH_SLOCK_def HC32L110_FLASH_CR_def)

lemma trigger_locks_round: "trigger_locks past (sector_round x adr) = []"
  by (simp add: sector_round_def is_register_def)

lemma sector_address:
  assumes "unat (x::u32) < 64"
  shows "unat (x * 512) = unat x * 512" and "sint (x * 512) = int (unat x * 512)"
    and "sint (x * 512 + 512) = int (unat x * 512 + 512)"
    and "\<not> is_register (x * 512)" and "x * 512 = word_of_nat (unat x * 512)"
proof -
  show u: "unat (x * 512) = unat x * 512"
    using assms by (simp add: unat_word_ariths)
  then have u2: "unat (x * 512 + 512) = unat x * 512 + 512"
    using assms by (simp add: unat_word_ariths)
  from u assms have "unat (x * 512) < 2 ^ 31" by simp
  then show "sint (x * 512) = int (unat x * 512)"
    by (simp only: sint_small u)
  from u2 assms have "unat (x * 512 + 512) < 2 ^ 31" by simp
  then show "sint (x * 512 + 512) = int (unat x * 512 + 512)"
    by (simp only: sint_small u2)
  from u assms have "unat (x * 512) < 32768" by simp
  then show "\<not> is_register (x * 512)"
    by (auto simp: is_register_def HC32L110_FLASH_BYPASS_def
      HC32L110_FLASH_SLOCK_def HC32L110_FLASH_CR_def)
  show "x * 512 = word_of_nat (unat x * 512)"
    by simp
qed


lemma erase_loop_triggers:
  "erase_loop bank x lst w = Some (r, w') \<Longrightarrow> base bank = 0 \<Longrightarrow> lst \<le> 64 \<Longrightarrow>
   \<exists>body. trace w' = trace w @ body \<and>
     trigger_locks (trace w) body =
       map (\<lambda>k. (word_of_nat (k * 512), Some (push_bit (k * 512 div 4096) 1)))
         [unat x..<unat lst]"
proof (induction bank x lst w rule: erase_loop.induct)
  case (1 bank x lst w)
  let ?f = "\<lambda>k. (word_of_nat (k * 512) :: u32, Some (push_bit (k * 512 div 4096) (1::u32)))"
  show ?case
  proof (cases "x < lst")
    case False
    then have "[unat x..<unat lst] = []" by (simp add: word_less_nat_alt)
    with False "1.prems" show ?thesis by (simp add: erase_loop.simps)
  next
    case True
    define adr where "adr = base bank + x * FLASH_SECTOR_SIZE"
    define w1 where "w1 = target_write_u32 (hc32l110_bypass w) HC32L110_FLASH_CR FLASH_OP_ERASE_SECTOR"
    define w2 where "w2 = hc32l110_sunlock (hc32l110_bypass w1) (sint adr) (sint (adr + FLASH_SECTOR_SIZE))"
    define w3 where "w3 = target_write_u32 w2 HC32L110_FLASH_SLOCK (push_bit (unat (x div 4)) 1)"
    define w4 where "w4 = target_write_u32 w3 adr 0"
    from True "1.prems"(1) obtain w5 where
      p: "hc32l110_check_flash_completion w4 50 = Some (ERROR_OK, w5)"
      and l: "erase_loop bank (x + 1) lst w5 = Some (r, w')"
      by (subst (asm) erase_loop.simps)
         (auto simp: Let_def adr_def w1_def w2_def w3_def w4_def
               split: option.splits if_splits dest: check_completion_ok)
    from "1.IH" [OF True adr_def w1_def w2_def w3_def w4_def p refl _ l "1.prems"(2,3)]
    obtain body where b: "trace w' = trace w5 @ body"
      "trigger_locks (trace w5) body = map ?f [unat (x + 1)..<unat lst]"
      by auto
    from check_completion_frame [OF p] obtain rs where
      rs: "trace w5 = trace w4 @ rs" "list_all is_read rs" by blast
    have a: "adr = x * 512"
      using "1.prems"(2) by (simp add: adr_def FLASH_SECTOR_SIZE_def)
    have t4: "trace w4 = trace w @ sector_round x adr @ [Write adr 0]"
      by (simp add: w4_def w3_def w2_def w1_def trace_sunlock trace_bypass target_write_u32_def
          sector_round_def FLASH_SECTOR_SIZE_def)
    from True "1.prems"(3) have "x < 64" by simp
    then have x64: "unat x < 64" by (simp add: word_less_nat_alt)
    note sa = sector_address [OF x64]
    have held: "slock_held (trace w @ sector_round x adr) =
        Some (push_bit (unat x * 512 div 4096) 1)"
      unfolding slock_held_round a sa(2,3) by (simp only: sector_mask [OF x64])
    have su: "unat (x + 1) = Suc (unat x)" using True by (rule unat_succ_less)
    from True have lt: "unat x < unat lst" by (simp add: word_less_nat_alt)
    have b2: "trigger_locks (trace w @ sector_round x adr @ [Write adr 0] @ rs) body =
        map ?f [Suc (unat x)..<unat lst]"
      using b(2) by (simp add: rs(1) t4 su)
    have fx: "?f (unat x) = (adr, Some (push_bit (unat x * 512 div 4096) 1))"
      by (simp add: a)
    have "trigger_locks (trace w) (sector_round x adr @ [Write adr 0] @ rs @ body) =
        (adr, slock_held (trace w @ sector_round x adr)) #
        trigger_locks (trace w @ sector_round x adr @ [Write adr 0] @ rs) body"
      using sa(4) rs(2)
      by (simp add: trigger_locks_append trigger_locks_round trigger_locks_reads a)
    also have "\<dots> = ?f (unat x) # map ?f [Suc (unat x)..<unat lst]"
      by (simp only: held b2 fx)
    also have "\<dots> = map ?f [unat x..<unat lst]"
      using lt by (simp add: upt_conv_Cons)
    finally have "trigger_locks (trace w) (sector_round x adr @ [Write adr 0] @ rs @ body) =
        map ?f [unat x..<unat lst]" .
    moreover have "trace w' = trace w @ (sector_round x adr @ [Write adr 0] @ rs @ body)"
      by (simp add: b(1) rs(1) t4)
    ultimately show ?thesis by blast
  qed
qed


text \<open>
  Claim C2: in the per-sector loop, for every sector \<open>x\<close> of \<open>[first, last)\<close>, the lock
  register holds exactly the bit of the 4 KiB region \<open>x * 512 / 4096\<close> when the trigger
  is written to the sector's base address \<open>x * 512\<close>. That value is the mask
  \<open>hc32l110_sunlock\<close> writes after its handshake; the write of \<open>1 << (x / 4)\<close> that follows
  it (line 120) comes without a handshake, so the register does not take it. The bank
  starts at address 0, as the bank command sets it, and has at most 64 sectors, as the
  largest chip has. \<open>trigger_locks\<close> lists the triggers of the run in the order they are
  issued: one for each sector, in ascending order. The erase returns when the clock is
  unbounded.
\<close>

theorem sector_erase_lock_at_trigger:
  assumes "\<not> ((first OR lst) = 0 \<or> (first = 0 \<and> lst \<ge> num_sectors bank))"
    and "base bank = 0" and "lst \<le> 64"
  shows "(clock_unbounded (clk w) \<longrightarrow>
           (\<exists>w'. hc32l110_erase bank first lst w = Some (ERROR_OK, w'))) \<and>
         (\<forall>r w'. hc32l110_erase bank first lst w = Some (r, w') \<longrightarrow>
           (\<exists>body. trace w' = trace w @ body \<and>
              trigger_locks (trace w) body =
                map (\<lambda>k. (word_of_nat (k * 512), Some (push_bit (k * 512 div 4096) 1)))
                  [unat first..<unat lst]))"
proof (intro conjI allI impI)
  assume "clock_unbounded (clk w)"
  then show "\<exists>w'. hc32l110_erase bank first lst w = Some (ERROR_OK, w')"
    by (rule erase_returns)
next
  fix r w'
  assume run: "hc32l110_erase bank first lst w = Some (r, w')"
  with assms(1) obtain r1 w1 where l: "erase_loop bank first lst w = Some (r1, w1)"
    by (auto simp: hc32l110_erase_def split: option.splits)
  then have "r1 = ERROR_OK" by (rule erase_loop_ok)
  with assms(1) run l have w': "w' = hc32l110_slock_all w1"
    by (auto simp: hc32l110_erase_def)
  from erase_loop_triggers [OF l assms(2,3)] obtain body where
    b: "trace w1 = trace w @ body"
    "trigger_locks (trace w) body =
       map (\<lambda>k. (word_of_nat (k * 512), Some (push_bit (k * 512 div 4096) 1)))
         [unat first..<unat lst]"
    by blast
  let ?relock = "[Write HC32L110_FLASH_BYPASS 0x5a5a, Write HC32L110_FLASH_BYPASS 0xa5a5,
    Write HC32L110_FLASH_SLOCK 0]"
  have "trigger_locks (trace w) (body @ ?relock) =
      map (\<lambda>k. (word_of_nat (k * 512), Some (push_bit (k * 512 div 4096) 1)))
        [unat first..<unat lst]"
    by (simp add: trigger_locks_append b(2) is_register_def)
  moreover have "trace w' = trace w @ (body @ ?relock)"
    by (simp add: w' trace_slock_all b(1))
  ultimately show "\<exists>body. trace w' = trace w @ body \<and>
      trigger_locks (trace w) body =
        map (\<lambda>k. (word_of_nat (k * 512), Some (push_bit (k * 512 div 4096) 1)))
          [unat first..<unat lst]"
    by blast
qed

theorem sector_erase_lock_at_trigger_witness:
  "\<not> (((4::u32) OR 6) = 0 \<or> ((4::u32) = 0 \<and> (6::u32) \<ge> num_sectors bank64)) \<and>
   base bank64 = 0 \<and> (6::u32) \<le> 64 \<and>
   (\<exists>w' body. hc32l110_erase bank64 4 6 idle_target = Some (ERROR_OK, w') \<and>
      trace w' = trace idle_target @ body \<and>
      trigger_locks (trace idle_target) body = [(2048, Some 1), (2560, Some 1)])"
proof -
  have h1: "\<not> (((4::u32) OR 6) = 0 \<or> ((4::u32) = 0 \<and> (6::u32) \<ge> num_sectors bank64))"
    by simp
  have h2: "base bank64 = 0" by (simp add: bank64_def)
  have h3: "(6::u32) \<le> 64" by simp
  have h4: "clock_unbounded (clk idle_target)"
    by (simp add: idle_target_def clock_unbounded_int)
  have f: "map (\<lambda>k. (word_of_nat (k * 512) :: u32, Some (push_bit (k * 512 div 4096) (1::u32))))
      [unat (4::u32)..<unat (6::u32)] = [(2048, Some 1), (2560, Some 1)]"
    by code_simp
  note t = sector_erase_lock_at_trigger [OF h1 h2 h3, of idle_target, unfolded f]
  from t [THEN conjunct1, rule_format, OF h4]
  obtain w' where e: "hc32l110_erase bank64 4 6 idle_target = Some (ERROR_OK, w')"
    by (rule exE)
  from t [THEN conjunct2, rule_format, OF e]
  have "\<exists>body. trace w' = trace idle_target @ body \<and>
      trigger_locks (trace idle_target) body = [(2048, Some 1), (2560, Some 1)]" .
  with e have "\<exists>w' body. hc32l110_erase bank64 4 6 idle_target = Some (ERROR_OK, w') \<and>
      trace w' = trace idle_target @ body \<and>
      trigger_locks (trace idle_target) body = [(2048, Some 1), (2560, Some 1)]"
    by (intro exI [of _ w']) simp
  with h1 h2 h3 show ?thesis by (intro conjI)
qed

end
